theory Spec2Isabelle
  imports Main "HOL-Library.Word"
begin

unbundle bit_operations_syntax

section \<open>Errors\<close>

text \<open>
  The typed failures of the specification (section 7), followed by the failures that the
  runtime raises in the source: a path that does not exist, a read of something that is
  not a regular file, and a failure of a write or of the argument parser.
  \<open>NoSuchEntry\<close> is the outcome of looking up a name that the archive does not hold.
\<close>

datatype error =
    InvalidPath | DuplicateEntry | ArchiveSealed
  | TruncatedInput | MalformedEntry | NotAnArchive | MalformedArchive | IntegrityError
  | NoSuchEntry
  | NotFound | NotAFile | WriteFailed | ParseArgsFailed

fun bindE :: "error + 'a \<Rightarrow> ('a \<Rightarrow> error + 'b) \<Rightarrow> error + 'b" where
  "bindE (Inl e) f = Inl e"
| "bindE (Inr x) f = f x"

section \<open>Paths\<close>

text \<open>
  The source imports \<open>join\<close>, \<open>basename\<close> and \<open>extname\<close> from the standard path
  module; their code is not part of the repository. They are modelled here after the
  POSIX flavour of that module: \<open>/\<close> is the only separator.
\<close>

definition isPosixPathSeparator :: "char \<Rightarrow> bool" where
  "isPosixPathSeparator c = (c = CHR ''/'')"

fun split_on :: "char \<Rightarrow> string \<Rightarrow> string list" where
  "split_on c [] = [[]]"
| "split_on c (x # xs) =
     (if x = c then [] # split_on c xs
      else (case split_on c xs of [] \<Rightarrow> [[x]] | s # ss \<Rightarrow> (x # s) # ss))"

fun join_with :: "string \<Rightarrow> string list \<Rightarrow> string" where
  "join_with sep [] = []"
| "join_with sep [s] = s"
| "join_with sep (s # t # ss) = s @ sep @ join_with sep (t # ss)"

text \<open>
  \<open>normalizeString\<close> walks the segments from left to right keeping a stack: empty
  segments and \<open>.\<close> are skipped; \<open>..\<close> removes the last kept segment, unless there is
  none or it is itself \<open>..\<close>, in which case \<open>..\<close> is kept when the path is relative.
  The stack is held in reverse.
\<close>

fun normalize_step :: "bool \<Rightarrow> string list \<Rightarrow> string \<Rightarrow> string list" where
  "normalize_step allowAboveRoot stack seg =
     (if seg = [] \<or> seg = ''.'' then stack
      else if seg = ''..'' then
        (case stack of
           [] \<Rightarrow> (if allowAboveRoot then [''..''] else [])
         | seg' # below \<Rightarrow>
             (if seg' = ''..'' then (if allowAboveRoot then ''..'' # stack else stack)
              else below))
      else seg # stack)"

definition normalizeString :: "string \<Rightarrow> bool \<Rightarrow> string" where
  "normalizeString path allowAboveRoot =
     join_with ''/'' (rev (foldl (normalize_step allowAboveRoot) [] (split_on CHR ''/'' path)))"

definition normalize_path :: "string \<Rightarrow> string" where
  "normalize_path path =
     (if path = [] then ''.''
      else
        let isAbsolute = isPosixPathSeparator (hd path);
            trailingSeparator = isPosixPathSeparator (last path);
            p1 = normalizeString path (\<not> isAbsolute);
            p2 = (if p1 = [] \<and> \<not> isAbsolute then ''.'' else p1);
            p3 = (if p2 \<noteq> [] \<and> trailingSeparator then p2 @ ''/'' else p2)
        in if isAbsolute then CHR ''/'' # p3 else p3)"

definition path_join :: "string \<Rightarrow> string \<Rightarrow> string" where
  "path_join a b =
     (let joined = join_with ''/'' (filter (\<lambda>p. p \<noteq> []) [a, b])
      in if joined = [] then ''.'' else normalize_path joined)"

definition strip_trailing :: "string \<Rightarrow> string" where
  "strip_trailing s = rev (dropWhile isPosixPathSeparator (rev s))"

definition lastPathSegment :: "string \<Rightarrow> string" where
  "lastPathSegment path =
     (if strip_trailing path = [] then path
      else rev (takeWhile (\<lambda>c. \<not> isPosixPathSeparator c) (rev (strip_trailing path))))"

definition stripTrailingSeparators :: "string \<Rightarrow> string" where
  "stripTrailingSeparators segment =
     (if length segment \<le> 1 then segment
      else hd segment # strip_trailing (tl segment))"

definition stripSuffix :: "string \<Rightarrow> string \<Rightarrow> string" where
  "stripSuffix nm suffix =
     (if length suffix \<ge> length nm then nm
      else if drop (length nm - length suffix) nm = suffix
           then take (length nm - length suffix) nm
           else nm)"

definition basename :: "string \<Rightarrow> string \<Rightarrow> string" where
  "basename path suffix =
     (if path = [] then path
      else
        let strippedSegment = stripTrailingSeparators (lastPathSegment path)
        in if suffix \<noteq> [] then stripSuffix strippedSegment suffix else strippedSegment)"

text \<open>
  \<open>extname\<close>: the part of the last segment from its last dot on; empty when the segment
  has no dot, when the dot is its first character, and when the segment is \<open>..\<close>.
\<close>

definition extname :: "string \<Rightarrow> string" where
  "extname path =
     (let seg = (if strip_trailing path = [] then [] else lastPathSegment path);
          afterDot = takeWhile (\<lambda>c. c \<noteq> CHR ''.'') (rev seg)
      in if CHR ''.'' \<notin> set seg then []
         else if length afterDot + 1 = length seg then []
         else if seg = ''..'' then []
         else CHR ''.'' # rev afterDot)"

section \<open>Binary cursor\<close>

type_synonym byte = "8 word"

text \<open>
  Modelled from the spec: the Binary Cursor (section 4.1), a byte buffer with a position.
  Writing appends to the buffer, integers in little-endian order; reading fails with
  \<open>TruncatedInput\<close> when too few bytes remain. The source has no such component: it
  hands the bytes to an imported library.
\<close>

definition le16 :: "16 word \<Rightarrow> byte list" where
  "le16 v = [ucast v, ucast (drop_bit 8 v)]"

definition le32 :: "32 word \<Rightarrow> byte list" where
  "le32 v = [ucast v, ucast (drop_bit 8 v), ucast (drop_bit 16 v), ucast (drop_bit 24 v)]"

definition rd16 :: "byte \<Rightarrow> byte \<Rightarrow> 16 word" where
  "rd16 a b = ucast a OR push_bit 8 (ucast b)"

definition rd32 :: "byte \<Rightarrow> byte \<Rightarrow> byte \<Rightarrow> byte \<Rightarrow> 32 word" where
  "rd32 a b c d =
     ucast a OR push_bit 8 (ucast b) OR push_bit 16 (ucast c) OR push_bit 24 (ucast d)"

record cursor =
  buf :: "byte list"
  pos :: nat

definition writeU16 :: "16 word \<Rightarrow> byte list \<Rightarrow> byte list" where
  "writeU16 v out = out @ le16 v"

definition writeU32 :: "32 word \<Rightarrow> byte list \<Rightarrow> byte list" where
  "writeU32 v out = out @ le32 v"

definition writeBytes :: "byte list \<Rightarrow> byte list \<Rightarrow> byte list" where
  "writeBytes bs out = out @ bs"

definition remaining :: "cursor \<Rightarrow> byte list" where
  "remaining c = drop (pos c) (buf c)"

definition readU16 :: "cursor \<Rightarrow> error + (16 word \<times> cursor)" where
  "readU16 c =
     (case remaining c of
        a # b # _ \<Rightarrow> Inr (rd16 a b, c\<lparr>pos := pos c + 2\<rparr>)
      | _ \<Rightarrow> Inl TruncatedInput)"

definition readU32 :: "cursor \<Rightarrow> error + (32 word \<times> cursor)" where
  "readU32 c =
     (case remaining c of
        a # b # d # e # _ \<Rightarrow> Inr (rd32 a b d e, c\<lparr>pos := pos c + 4\<rparr>)
      | _ \<Rightarrow> Inl TruncatedInput)"

definition readBytes :: "nat \<Rightarrow> cursor \<Rightarrow> error + (byte list \<times> cursor)" where
  "readBytes n c =
     (if n \<le> length (remaining c) then Inr (take n (remaining c), c\<lparr>pos := pos c + n\<rparr>)
      else Inl TruncatedInput)"

definition seek :: "nat \<Rightarrow> cursor \<Rightarrow> cursor" where
  "seek off c = c\<lparr>pos := off\<rparr>"

section \<open>CRC-32\<close>

text \<open>
  Modelled from the spec: the CRC-32 Engine (section 4.2), bit-wise, with the reflected
  polynomial \<open>0xEDB88320\<close>, initial value \<open>0xFFFFFFFF\<close> and the final value complemented.
\<close>

definition crc_bit :: "32 word \<Rightarrow> 32 word" where
  "crc_bit s = (if bit s 0 then drop_bit 1 s XOR 0xEDB88320 else drop_bit 1 s)"

definition crc_byte :: "32 word \<Rightarrow> byte \<Rightarrow> 32 word" where
  "crc_byte s b = (crc_bit ^^ 8) (s XOR ucast b)"

definition crc32 :: "byte list \<Rightarrow> 32 word" where
  "crc32 bs = NOT (foldl crc_byte 0xFFFFFFFF bs)"

section \<open>Entry codec\<close>

text \<open>
  Modelled from the spec: the archive member of section 3 and the Entry Codec of
  section 4.3. The source never builds or parses these structures itself (it calls the
  imported \<open>ZipWriter\<close> and \<open>ZipReader\<close>), so the layout below follows the field
  lists of sections 4.3 and 6, in the order they are given there. A name is held as the
  sequence of its bytes. The content of a member lives in the archive buffer, at
  \<open>localHeaderOffset\<close>.
\<close>

record member =
  name :: string
  isDirectory :: bool
  uncompressedSize :: "32 word"
  compressedSize :: "32 word"
  crc :: "32 word"
  localHeaderOffset :: "32 word"

definition bytes_of_string :: "string \<Rightarrow> byte list" where
  "bytes_of_string s = map (\<lambda>c. of_nat (of_char c)) s"

definition string_of_bytes :: "byte list \<Rightarrow> string" where
  "string_of_bytes bs = map (\<lambda>b. char_of (unat b)) bs"

definition LOCAL_SIG :: "32 word" where "LOCAL_SIG = 0x04034B50"
definition CENTRAL_SIG :: "32 word" where "CENTRAL_SIG = 0x02014B50"
definition EOCD_SIG :: "32 word" where "EOCD_SIG = 0x06054B50"
definition EOCD_SIZE :: nat where "EOCD_SIZE = 16"
definition MAX_COMMENT :: nat where "MAX_COMMENT = 65535"

text \<open>Version needed, and the fixed placeholder for the last-modification time and date.\<close>

definition VERSION_NEEDED :: "16 word" where "VERSION_NEEDED = 20"
definition MOD_TIME :: "16 word" where "MOD_TIME = 0"
definition MOD_DATE :: "16 word" where "MOD_DATE = 0x21"

text \<open>
  The external attributes carry the Unix mode in their upper half: a directory is
  \<open>040755\<close> (octal) with the directory bit of the lower half set, a file is \<open>100644\<close>.
  Bit 30 is the directory flag.
\<close>

definition externalAttributes :: "bool \<Rightarrow> 32 word" where
  "externalAttributes d = (if d then 0x41ED0010 else 0x81A40000)"

definition encodeLocalHeader :: "member \<Rightarrow> byte list" where
  "encodeLocalHeader m =
     writeBytes (bytes_of_string (name m))
      (writeU16 (of_nat (length (name m)))
      (writeU32 (uncompressedSize m)
      (writeU32 (compressedSize m)
      (writeU32 (crc m)
      (writeU16 MOD_DATE
      (writeU16 MOD_TIME
      (writeU16 0
      (writeU16 0
      (writeU16 VERSION_NEEDED
      (writeU32 LOCAL_SIG []))))))))))"

definition encodeCentralRecord :: "member \<Rightarrow> byte list" where
  "encodeCentralRecord m =
     writeBytes (bytes_of_string (name m))
      (writeU32 (localHeaderOffset m)
      (writeU32 (externalAttributes (isDirectory m))
      (writeU16 (of_nat (length (name m)))
      (writeU32 (uncompressedSize m)
      (writeU32 (compressedSize m)
      (writeU32 (crc m)
      (writeU32 CENTRAL_SIG [])))))))"

definition encodeEOCD :: "16 word \<Rightarrow> 32 word \<Rightarrow> 32 word \<Rightarrow> byte list" where
  "encodeEOCD entryCount cdSize cdOffset =
     writeU16 0 (writeU32 cdOffset (writeU32 cdSize (writeU16 entryCount (writeU32 EOCD_SIG []))))"

text \<open>
  Decoding a local entry: the signature is validated, the fixed fields are read, then the
  name and exactly \<open>compressedSize\<close> bytes of content. A wrong signature, and a declared
  size that exceeds what is left of the buffer, are \<open>MalformedEntry\<close>.
\<close>

record local_entry =
  le_name :: string
  le_crc :: "32 word"
  le_compressedSize :: "32 word"
  le_uncompressedSize :: "32 word"
  le_content :: "byte list"

definition readSized :: "nat \<Rightarrow> cursor \<Rightarrow> error + (byte list \<times> cursor)" where
  "readSized n c =
     (case readBytes n c of Inl e \<Rightarrow> Inl MalformedEntry | Inr r \<Rightarrow> Inr r)"

definition decodeLocalEntry :: "cursor \<Rightarrow> error + (local_entry \<times> cursor)" where
  "decodeLocalEntry c0 =
     bindE (readU32 c0) (\<lambda>(sig, c1).
     if sig \<noteq> LOCAL_SIG then Inl MalformedEntry else
     bindE (readU16 c1) (\<lambda>(version, c2).
     bindE (readU16 c2) (\<lambda>(flags, c3).
     bindE (readU16 c3) (\<lambda>(method, c4).
     bindE (readU16 c4) (\<lambda>(modTime, c5).
     bindE (readU16 c5) (\<lambda>(modDate, c6).
     bindE (readU32 c6) (\<lambda>(crcField, c7).
     bindE (readU32 c7) (\<lambda>(csize, c8).
     bindE (readU32 c8) (\<lambda>(usize, c9).
     bindE (readU16 c9) (\<lambda>(nameLen, c10).
     bindE (readSized (unat nameLen) c10) (\<lambda>(nameBytes, c11).
     bindE (readSized (unat csize) c11) (\<lambda>(contentBytes, c12).
     Inr (\<lparr>le_name = string_of_bytes nameBytes, le_crc = crcField,
            le_compressedSize = csize, le_uncompressedSize = usize,
            le_content = contentBytes\<rparr>, c12)))))))))))))"

definition decodeCentralRecord :: "cursor \<Rightarrow> error + (member \<times> cursor)" where
  "decodeCentralRecord c0 =
     bindE (readU32 c0) (\<lambda>(sig, c1).
     if sig \<noteq> CENTRAL_SIG then Inl MalformedEntry else
     bindE (readU32 c1) (\<lambda>(crcField, c2).
     bindE (readU32 c2) (\<lambda>(csize, c3).
     bindE (readU32 c3) (\<lambda>(usize, c4).
     bindE (readU16 c4) (\<lambda>(nameLen, c5).
     bindE (readU32 c5) (\<lambda>(attrs, c6).
     bindE (readU32 c6) (\<lambda>(off, c7).
     bindE (readSized (unat nameLen) c7) (\<lambda>(nameBytes, c8).
     Inr (\<lparr>name = string_of_bytes nameBytes, isDirectory = bit attrs 30,
            uncompressedSize = usize, compressedSize = csize, crc = crcField,
            localHeaderOffset = off\<rparr>, c8)))))))))"

fun decodeCentralRecords :: "nat \<Rightarrow> cursor \<Rightarrow> error + (member list \<times> cursor)" where
  "decodeCentralRecords 0 c = Inr ([], c)"
| "decodeCentralRecords (Suc n) c =
     bindE (decodeCentralRecord c) (\<lambda>(m, c').
     bindE (decodeCentralRecords n c') (\<lambda>(ms, c'').
     Inr (m # ms, c'')))"

section \<open>Archive writer\<close>

text \<open>
  Modelled from the spec: the Archive Writer of section 4.4. It stands for the imported
  \<open>ZipWriter\<close> of the source: \<open>addFile\<close> for \<open>zipWriter.add(name, reader, {level: 0})\<close>
  and \<open>finalize\<close> for \<open>zipWriter.close()\<close>.
\<close>

record builder =
  buffer :: "byte list"
  pending :: "member list"
  sealed :: bool

definition begin_archive :: builder where
  "begin_archive = \<lparr>buffer = [], pending = [], sealed = False\<rparr>"

definition toForwardSlashes :: "string \<Rightarrow> string" where
  "toForwardSlashes p = map (\<lambda>c. if c = CHR 0x5C then CHR ''/'' else c) p"

definition isAbsolutePath :: "string \<Rightarrow> bool" where
  "isAbsolutePath p = (case p of [] \<Rightarrow> False | c # _ \<Rightarrow> c = CHR ''/'')"

definition hasDotDotSegment :: "string \<Rightarrow> bool" where
  "hasDotDotSegment p = (''..'' \<in> set (split_on CHR ''/'' p))"

definition addEntry :: "string \<Rightarrow> bool \<Rightarrow> byte list \<Rightarrow> builder \<Rightarrow> error + builder" where
  "addEntry nm isDir bytes b =
     (if sealed b then Inl ArchiveSealed
      else if isAbsolutePath nm \<or> hasDotDotSegment nm then Inl InvalidPath
      else if nm \<in> set (map name (pending b)) then Inl DuplicateEntry
      else
        let m = \<lparr>name = nm, isDirectory = isDir,
                 uncompressedSize = of_nat (length bytes),
                 compressedSize = of_nat (length bytes),
                 crc = crc32 bytes,
                 localHeaderOffset = of_nat (length (buffer b))\<rparr>
        in Inr (b\<lparr>buffer := writeBytes bytes (writeBytes (encodeLocalHeader m) (buffer b)),
                  pending := pending b @ [m]\<rparr>))"

definition addFile :: "string \<Rightarrow> byte list \<Rightarrow> builder \<Rightarrow> error + builder" where
  "addFile path bytes b = addEntry (toForwardSlashes path) False bytes b"

definition addDirectory :: "string \<Rightarrow> builder \<Rightarrow> error + builder" where
  "addDirectory path b = addEntry (strip_trailing (toForwardSlashes path) @ ''/'') True [] b"

definition centralDirectory :: "member list \<Rightarrow> byte list" where
  "centralDirectory ms = concat (map encodeCentralRecord ms)"

definition finalize :: "builder \<Rightarrow> byte list \<times> builder" where
  "finalize b =
     (if sealed b then (buffer b, b)
      else
        let cd = centralDirectory (pending b);
            out = writeBytes
                    (encodeEOCD (of_nat (length (pending b))) (of_nat (length cd))
                       (of_nat (length (buffer b))))
                    (writeBytes cd (buffer b))
        in (out, b\<lparr>buffer := out, sealed := True\<rparr>))"

section \<open>Archive reader\<close>

text \<open>
  Modelled from the spec: the Archive Reader of section 4.5. It stands for the imported
  \<open>ZipReader\<close> of the source: \<open>open_archive\<close> and \<open>listEntries\<close> for
  \<open>zipReader.getEntries()\<close>, \<open>readEntry\<close> for \<open>entry.getData\<close>.
\<close>

record reader =
  bytes :: "byte list"
  members :: "member list"

record descriptor =
  d_name :: string
  d_isDirectory :: bool
  d_uncompressedSize :: "32 word"
  d_crc32 :: "32 word"

definition signatureAt :: "byte list \<Rightarrow> nat \<Rightarrow> bool" where
  "signatureAt bs i = (take 4 (drop i bs) = le32 EOCD_SIG)"

text \<open>
  The backward scan for the end-of-central-directory record: from offset \<open>i\<close> towards
  the start of the buffer, over at most \<open>n\<close> offsets.
\<close>

fun findEOCD :: "byte list \<Rightarrow> nat \<Rightarrow> nat \<Rightarrow> nat option" where
  "findEOCD bs i 0 = None"
| "findEOCD bs i (Suc n) =
     (if signatureAt bs i then Some i
      else if i = 0 then None
      else findEOCD bs (i - 1) n)"

definition decodeEOCD :: "cursor \<Rightarrow> error + ((16 word \<times> 32 word \<times> 32 word) \<times> cursor)" where
  "decodeEOCD c0 =
     bindE (readU32 c0) (\<lambda>(sig, c1).
     bindE (readU16 c1) (\<lambda>(entryCount, c2).
     bindE (readU32 c2) (\<lambda>(cdSize, c3).
     bindE (readU32 c3) (\<lambda>(cdOffset, c4).
     bindE (readU16 c4) (\<lambda>(commentLen, c5).
     Inr ((entryCount, cdSize, cdOffset), c5))))))"

definition malformed :: "error + 'a \<Rightarrow> error + 'a" where
  "malformed r = (case r of Inl e \<Rightarrow> Inl MalformedArchive | Inr x \<Rightarrow> Inr x)"

definition open_archive :: "byte list \<Rightarrow> error + reader" where
  "open_archive bs =
     (if length bs < EOCD_SIZE then Inl NotAnArchive
      else case findEOCD bs (length bs - EOCD_SIZE) (MAX_COMMENT + 1) of
        None \<Rightarrow> Inl NotAnArchive
      | Some i \<Rightarrow>
          bindE (malformed (decodeEOCD \<lparr>buf = bs, pos = i\<rparr>)) (\<lambda>((entryCount, cdSize, cdOffset), c).
          bindE (malformed (decodeCentralRecords (unat entryCount) (seek (unat cdOffset) c))) (\<lambda>(ms, c').
          if pos c' - unat cdOffset \<noteq> unat cdSize then Inl MalformedArchive
          else Inr \<lparr>bytes = bs, members = ms\<rparr>)))"

definition describe :: "member \<Rightarrow> descriptor" where
  "describe m = \<lparr>d_name = name m, d_isDirectory = isDirectory m,
                 d_uncompressedSize = uncompressedSize m, d_crc32 = crc m\<rparr>"

definition listEntries :: "reader \<Rightarrow> descriptor list" where
  "listEntries r = map describe (members r)"

definition readEntry :: "reader \<Rightarrow> string \<Rightarrow> error + byte list" where
  "readEntry r nm =
     (case find (\<lambda>m. name m = nm) (members r) of
        None \<Rightarrow> Inl NoSuchEntry
      | Some m \<Rightarrow>
          bindE (decodeLocalEntry (seek (unat (localHeaderOffset m)) \<lparr>buf = bytes r, pos = 0\<rparr>))
            (\<lambda>(e, c).
              if crc32 (le_content e) \<noteq> le_crc e then Inl IntegrityError
              else Inr (le_content e)))"

section \<open>The filesystem\<close>

text \<open>
  What the tool reads is a snapshot: a path resolves to a file with its bytes, to a
  directory with its entries in the order \<open>Deno.readDir\<close> yields them, or to
  something that is neither (a symbolic link in a listing, a device). What the tool
  writes goes through two operations on a world \<open>'w\<close>, each of which may fail and
  leaves a world behind in either case.
\<close>

datatype node = File "byte list" | Directory "(string \<times> node) list" | Other

type_synonym fs = "string \<Rightarrow> node option"

type_synonym ('a, 'w) io = "'w \<Rightarrow> (error + 'a) \<times> 'w"

definition bindS :: "('a, 'w) io \<Rightarrow> ('a \<Rightarrow> ('b, 'w) io) \<Rightarrow> ('b, 'w) io" where
  "bindS m f w = (case m w of (Inl e, w') \<Rightarrow> (Inl e, w') | (Inr x, w') \<Rightarrow> f x w')"

definition liftE :: "error + 'a \<Rightarrow> ('a, 'w) io" where
  "liftE r w = (r, w)"

record 'w fs_writer =
  mkdir :: "string \<Rightarrow> (unit, 'w) io"
  writeFile :: "string \<Rightarrow> byte list \<Rightarrow> (unit, 'w) io"

definition stat :: "fs \<Rightarrow> string \<Rightarrow> error + node" where
  "stat fs path = (case fs path of None \<Rightarrow> Inl NotFound | Some n \<Rightarrow> Inr n)"

definition readFile :: "fs \<Rightarrow> string \<Rightarrow> error + byte list" where
  "readFile fs path =
     (case fs path of
        None \<Rightarrow> Inl NotFound
      | Some (File data) \<Rightarrow> Inr data
      | Some _ \<Rightarrow> Inl NotAFile)"

text \<open>A world that only records the operations applied to it, in order.\<close>

datatype fs_op = Mkdir string | WriteFile string "byte list"

definition recording :: "(fs_op list) fs_writer" where
  "recording = \<lparr>mkdir = (\<lambda>p w. (Inr (), w @ [Mkdir p])),
                writeFile = (\<lambda>p d w. (Inr (), w @ [WriteFile p d]))\<rparr>"

section \<open>The tool\<close>

definition helpText :: "string list" where
  "helpText =
    [''Usage: 1zip [OPTIONS] <PATH>'',
     [],
     ''Options:'',
     ''  -c <path>        Compress file/directory to ZIP (no compression)'',
     ''  -d <path>        Decompress ZIP file'',
     ''  -l, --list <path> List contents of ZIP file'',
     ''  -h, --help       Show this help message'',
     [],
     ''Examples:'',
     ''  1zip -c tmp/           # Creates tmp.zip'',
     ''  1zip -c README.md      # Creates README.md.zip'',
     ''  1zip -d tmp.zip        # Extracts to tmp/'',
     ''  1zip -l archive.zip    # Lists contents'',
     []]"

text \<open>
  \<open>addDirectoryToZip\<close>: the loop over \<open>Deno.readDir(dirPath)\<close>. The listing of
  \<open>dirPath\<close> is the argument \<open>entries\<close>; reading \<open>join(dirPath, entry.name)\<close> is the
  node that the listing holds under that name.
\<close>

fun addDirectoryToZip :: "builder \<Rightarrow> (string \<times> node) list \<Rightarrow> string \<Rightarrow> error + builder" where
  "addDirectoryToZip zipWriter [] basePath = Inr zipWriter"
| "addDirectoryToZip zipWriter ((entryName, File data) # entries) basePath =
     (let relativePath = (if basePath \<noteq> [] then basePath @ ''/'' @ entryName else entryName)
      in bindE (addFile relativePath data zipWriter)
           (\<lambda>zipWriter'. addDirectoryToZip zipWriter' entries basePath))"
| "addDirectoryToZip zipWriter ((entryName, Directory sub) # entries) basePath =
     (let relativePath = (if basePath \<noteq> [] then basePath @ ''/'' @ entryName else entryName)
      in bindE (addDirectoryToZip zipWriter sub relativePath)
           (\<lambda>zipWriter'. addDirectoryToZip zipWriter' entries basePath))"
| "addDirectoryToZip zipWriter ((entryName, Other) # entries) basePath =
     addDirectoryToZip zipWriter entries basePath"

definition compressPath :: "'w fs_writer \<Rightarrow> fs \<Rightarrow> string \<Rightarrow> (string list, 'w) io" where
  "compressPath io fs inputPath =
     bindS (liftE (stat fs inputPath)) (\<lambda>st.
     let outputPath = inputPath @ ''.zip'';
         zipWriter = begin_archive
     in bindS (liftE
          (case st of
             File _ \<Rightarrow>
               bindE (readFile fs inputPath) (\<lambda>data.
               addFile (basename inputPath []) data zipWriter)
           | Directory entries \<Rightarrow> addDirectoryToZip zipWriter entries []
           | Other \<Rightarrow> Inr zipWriter)) (\<lambda>zipWriter'.
        let zipData = fst (finalize zipWriter')
        in bindS (writeFile io outputPath zipData) (\<lambda>_.
           liftE (Inr [''Created: '' @ outputPath]))))"

fun extractEntries ::
  "'w fs_writer \<Rightarrow> reader \<Rightarrow> string \<Rightarrow> descriptor list \<Rightarrow> (unit, 'w) io" where
  "extractEntries io zipReader fullOutputDir [] w = (Inr (), w)"
| "extractEntries io zipReader fullOutputDir (entry # entries) w =
     (if d_isDirectory entry then
        bindS (mkdir io (path_join fullOutputDir (d_name entry)))
          (\<lambda>_ w'. extractEntries io zipReader fullOutputDir entries w') w
      else
        bindS (liftE (readEntry zipReader (d_name entry))) (\<lambda>data.
        let outputPath = path_join fullOutputDir (d_name entry)
        in bindS (mkdir io (path_join outputPath ''..'')) (\<lambda>_.
           bindS (writeFile io outputPath data)
             (\<lambda>_ w'. extractEntries io zipReader fullOutputDir entries w'))) w)"

definition decompressZip :: "'w fs_writer \<Rightarrow> fs \<Rightarrow> string \<Rightarrow> (string list, 'w) io" where
  "decompressZip io fs zipPath =
     bindS (liftE (readFile fs zipPath)) (\<lambda>zipData.
     bindS (liftE (open_archive zipData)) (\<lambda>zipReader.
     let entries = listEntries zipReader;
         zipDir = path_join zipPath ''..'';
         outputDir = basename zipPath (extname zipPath);
         fullOutputDir = path_join zipDir outputDir
     in bindS (extractEntries io zipReader fullOutputDir entries) (\<lambda>_.
        liftE (Inr [''Extracted to: '' @ fullOutputDir @ ''/'']))))"

definition digit :: "nat \<Rightarrow> char" where
  "digit n = char_of (48 + n)"

function toString :: "nat \<Rightarrow> string" where
  "toString n = (if n < 10 then [digit n] else toString (n div 10) @ [digit (n mod 10)])"
  by pat_completeness auto
termination
  by (relation "measure id") auto

definition padEnd :: "string \<Rightarrow> nat \<Rightarrow> string" where
  "padEnd s n = s @ replicate (n - length s) CHR '' ''"

definition padStart :: "string \<Rightarrow> nat \<Rightarrow> string" where
  "padStart s n = replicate (n - length s) CHR '' '' @ s"

definition listLine :: "descriptor \<Rightarrow> string" where
  "listLine entry =
     (let type = (if d_isDirectory entry then ''DIR'' else ''FILE'');
          size = unat (d_uncompressedSize entry)
      in ''  '' @ padEnd type 5 @ '' '' @ padStart (toString size) 10 @ '' '' @ d_name entry)"

definition listZipContents :: "fs \<Rightarrow> string \<Rightarrow> (string list, 'w) io" where
  "listZipContents fs zipPath =
     bindS (liftE (readFile fs zipPath)) (\<lambda>zipData.
     bindS (liftE (open_archive zipData)) (\<lambda>zipReader.
     let entries = listEntries zipReader
     in liftE (Inr ((''Contents of '' @ zipPath @ '':'') # map listLine entries))))"

text \<open>
  \<open>main\<close>. The argument parser is imported; it is a parameter here, from the argument
  list to the parsed values or a failure. A string option that was not given is \<open>None\<close>;
  JavaScript takes the empty string for false, so an option selects its operation only
  with a non-empty value. The result is what the console shows, the exit status and
  the world left behind. \<open>parseArgs\<close> is called outside the \<open>try\<close> block: its failure
  ends the process as an uncaught error, with status 1.
\<close>

record "values" =
  v_compress :: "string option"
  v_decompress :: "string option"
  v_list :: "string option"
  v_help :: "bool option"

datatype console = Log "string list" | ErrorMessage error | Uncaught error

record outcome =
  shown :: "console list"
  exitCode :: nat

definition selected :: "string option \<Rightarrow> bool" where
  "selected v = (case v of None \<Rightarrow> False | Some s \<Rightarrow> s \<noteq> [])"

definition finish :: "(string list, 'w) io \<Rightarrow> 'w \<Rightarrow> outcome \<times> 'w" where
  "finish operation w =
     (case operation w of
        (Inr lines, w') \<Rightarrow> (\<lparr>shown = [Log lines], exitCode = 0\<rparr>, w')
      | (Inl e, w') \<Rightarrow> (\<lparr>shown = [ErrorMessage e], exitCode = 1\<rparr>, w'))"

definition main ::
  "(string list \<Rightarrow> error + values) \<Rightarrow> 'w fs_writer \<Rightarrow> fs \<Rightarrow> string list \<Rightarrow> 'w \<Rightarrow> outcome \<times> 'w" where
  "main parseArgs io fs args w =
     (if length args = 0 then (\<lparr>shown = [Log helpText], exitCode = 0\<rparr>, w)
      else case parseArgs args of
        Inl e \<Rightarrow> (\<lparr>shown = [Uncaught e], exitCode = 1\<rparr>, w)
      | Inr vs \<Rightarrow>
          if v_help vs = Some True then (\<lparr>shown = [Log helpText], exitCode = 0\<rparr>, w)
          else if selected (v_compress vs) then finish (compressPath io fs (the (v_compress vs))) w
          else if selected (v_decompress vs) then finish (decompressZip io fs (the (v_decompress vs))) w
          else if selected (v_list vs) then finish (listZipContents fs (the (v_list vs))) w
          else (\<lparr>shown = [Log helpText], exitCode = 1\<rparr>, w))"

section \<open>Notions for the statements and their proofs\<close>

text \<open>
  \<open>reads f xs v\<close>: wherever the bytes \<open>xs\<close> lie ahead of the cursor, the parser \<open>f\<close>
  consumes exactly them and returns \<open>v\<close>.
\<close>

definition reads :: "(cursor \<Rightarrow> error + ('a \<times> cursor)) \<Rightarrow> byte list \<Rightarrow> 'a \<Rightarrow> bool" where
  "reads f xs v = (\<forall>c r. remaining c = xs @ r \<longrightarrow> f c = Inr (v, c\<lparr>pos := pos c + length xs\<rparr>))"

text \<open>
  \<open>stored_at bs m content\<close>: the buffer \<open>bs\<close> holds the local header of \<open>m\<close>,
  followed by \<open>content\<close>, at the offset that \<open>m\<close> records. \<open>built b items\<close>: the
  builder \<open>b\<close> is what adding the files \<open>items\<close>, in order, to an empty archive
  leaves behind.
\<close>

definition stored_at :: "byte list \<Rightarrow> member \<Rightarrow> byte list \<Rightarrow> bool" where
  "stored_at bs m content =
     (\<exists>pre post. bs = pre @ encodeLocalHeader m @ content @ post \<and>
        length pre = unat (localHeaderOffset m))"

definition holds :: "byte list \<Rightarrow> member \<Rightarrow> string \<times> byte list \<Rightarrow> bool" where
  "holds bs m item =
     (name m = fst item \<and> stored_at bs m (snd item) \<and> crc m = crc32 (snd item) \<and>
      unat (compressedSize m) = length (snd item) \<and>
      uncompressedSize m = compressedSize m \<and> \<not> isDirectory m)"

text \<open>
  The sizes of the three parts of an archive of the files \<open>items\<close>: a local header has
  28 bytes before the name, a central directory record 26, and the end record 16.
\<close>

definition local_size :: "(string \<times> byte list) list \<Rightarrow> nat" where
  "local_size items = (\<Sum>(p, bs)\<leftarrow>items. 28 + length p + length bs)"

definition central_size :: "(string \<times> byte list) list \<Rightarrow> nat" where
  "central_size items = (\<Sum>(p, bs)\<leftarrow>items. 26 + length p)"

definition archive_size :: "(string \<times> byte list) list \<Rightarrow> nat" where
  "archive_size items = local_size items + central_size items + 16"

text \<open>
  A valid member name (section 3): forward slashes only, no leading slash, no \<open>..\<close>
  segment. \<open>fits\<close>: the fixed-width fields of the format can hold the archive, that is,
  fewer than \<open>2^16\<close> entries, names shorter than \<open>2^16\<close> bytes and fewer than \<open>2^32\<close>
  bytes in all.
\<close>

definition valid_name :: "string \<Rightarrow> bool" where
  "valid_name p = (CHR 0x5C \<notin> set p \<and> \<not> isAbsolutePath p \<and> \<not> hasDotDotSegment p)"

definition fits :: "(string \<times> byte list) list \<Rightarrow> bool" where
  "fits items =
     (length items < 65536 \<and> (\<forall>(p, bs) \<in> set items. length p < 65536) \<and>
      archive_size items < 4294967296)"

definition built :: "builder \<Rightarrow> (string \<times> byte list) list \<Rightarrow> bool" where
  "built b items =
     (\<not> sealed b \<and> list_all2 (holds (buffer b)) (pending b) items \<and>
      length (buffer b) = local_size items)"

text \<open>Adding a list of files, in order; the first failure ends it.\<close>

fun write_all :: "(string \<times> byte list) list \<Rightarrow> builder \<Rightarrow> error + builder" where
  "write_all [] b = Inr b"
| "write_all ((p, bs) # rest) b = bindE (addFile p bs b) (write_all rest)"

text \<open>
  Flipping bit \<open>j\<close> of the byte at offset \<open>k\<close>; and the offset of the first content
  byte of a member, right after its local header.
\<close>

definition flipBit :: "byte list \<Rightarrow> nat \<Rightarrow> nat \<Rightarrow> byte list" where
  "flipBit bs k j = bs[k := (bs ! k) XOR push_bit j 1]"

definition content_offset :: "member \<Rightarrow> nat" where
  "content_offset m = unat (localHeaderOffset m) + length (encodeLocalHeader m)"

text \<open>The inverse of one bit step of the checksum.\<close>

definition crc_unbit :: "32 word \<Rightarrow> 32 word" where
  "crc_unbit r = (if bit r 31 then 2 * (r XOR 0xEDB88320) OR 1 else 2 * r)"

text \<open>The public operations of the writer, and a run of them on a builder.\<close>

datatype writer_op = AddFile string "byte list" | AddDirectory string | Finalize

fun apply_op :: "writer_op \<Rightarrow> builder \<Rightarrow> error + builder" where
  "apply_op (AddFile p bs) b = addFile p bs b"
| "apply_op (AddDirectory p) b = addDirectory p b"
| "apply_op Finalize b = Inr (snd (finalize b))"

fun run_writer :: "writer_op list \<Rightarrow> builder \<Rightarrow> error + builder" where
  "run_writer [] b = Inr b"
| "run_writer (x # xs) b = bindE (apply_op x b) (run_writer xs)"

definition stored_sizes :: "builder \<Rightarrow> bool" where
  "stored_sizes b = (\<forall>m \<in> set (pending b). compressedSize m = uncompressedSize m)"

text \<open>
  Ordinary paths: a plain segment is a non-empty name other than \<open>.\<close> and \<open>..\<close>, with
  no separator in it; \<open>render\<close> writes a list of segments as a path, absolute or
  relative. \<open>lead\<close> gives the empty segments that a leading separator splits off.
\<close>

definition plain :: "string \<Rightarrow> bool" where
  "plain s = (s \<noteq> [] \<and> s \<noteq> ''.'' \<and> s \<noteq> ''..'' \<and> CHR ''/'' \<notin> set s)"

definition render :: "bool \<Rightarrow> string list \<Rightarrow> string" where
  "render absolute segs = (if absolute then ''/'' else []) @ join_with ''/'' segs"

definition lead :: "bool \<Rightarrow> string list \<Rightarrow> string list" where
  "lead a segs = (if a then (if segs = [] then [[], []] else [[]]) else [])"

text \<open>
  Extraction as the specification words it (section 4.5): each entry, in listing order,
  decides the operations on the destination. A directory entry is one directory to create;
  a file entry is its parent directory to create and then its content to write at the
  entry's path under the root.
\<close>

definition entry_ops :: "reader \<Rightarrow> string \<Rightarrow> descriptor \<Rightarrow> error + fs_op list" where
  "entry_ops r root e =
     (if d_isDirectory e then Inr [Mkdir (path_join root (d_name e))]
      else bindE (readEntry r (d_name e)) (\<lambda>content.
        Inr [Mkdir (path_join (path_join root (d_name e)) ''..''),
             WriteFile (path_join root (d_name e)) content]))"

fun perform :: "'w fs_writer \<Rightarrow> fs_op \<Rightarrow> (unit, 'w) io" where
  "perform io (Mkdir p) = mkdir io p"
| "perform io (WriteFile p content) = writeFile io p content"

fun run_ops :: "'w fs_writer \<Rightarrow> fs_op list \<Rightarrow> (unit, 'w) io" where
  "run_ops io [] w = (Inr (), w)"
| "run_ops io (x # xs) w = bindS (perform io x) (\<lambda>_. run_ops io xs) w"

fun extractAll :: "'w fs_writer \<Rightarrow> reader \<Rightarrow> string \<Rightarrow> descriptor list \<Rightarrow> (unit, 'w) io" where
  "extractAll io r root [] w = (Inr (), w)"
| "extractAll io r root (e # es) w =
     bindS (liftE (entry_ops r root e)) (\<lambda>ops.
     bindS (run_ops io ops) (\<lambda>_. extractAll io r root es)) w"

text \<open>
  The files of a directory listing with their paths relative to the listing, in the order
  of the walk; the listing without its empty directories; and the archive bytes that
  \<open>compressPath\<close> hands to \<open>Deno.writeFile\<close>.
\<close>

fun tree_files :: "(string \<times> node) list \<Rightarrow> string \<Rightarrow> (string \<times> byte list) list" where
  "tree_files [] basePath = []"
| "tree_files ((entryName, File content) # entries) basePath =
     ((if basePath \<noteq> [] then basePath @ ''/'' @ entryName else entryName), content)
       # tree_files entries basePath"
| "tree_files ((entryName, Directory sub) # entries) basePath =
     tree_files sub (if basePath \<noteq> [] then basePath @ ''/'' @ entryName else entryName)
       @ tree_files entries basePath"
| "tree_files ((entryName, Other) # entries) basePath = tree_files entries basePath"

fun remove_empty :: "(string \<times> node) list \<Rightarrow> (string \<times> node) list" where
  "remove_empty [] = []"
| "remove_empty ((entryName, Directory []) # entries) = remove_empty entries"
| "remove_empty ((entryName, Directory (e # sub)) # entries) =
     (entryName, Directory (remove_empty (e # sub))) # remove_empty entries"
| "remove_empty ((entryName, File content) # entries) =
     (entryName, File content) # remove_empty entries"
| "remove_empty ((entryName, Other) # entries) = (entryName, Other) # remove_empty entries"

definition buildArchive :: "fs \<Rightarrow> string \<Rightarrow> error + byte list" where
  "buildArchive fs inputPath =
     bindE (stat fs inputPath) (\<lambda>st.
     bindE (case st of
              File _ \<Rightarrow> bindE (readFile fs inputPath) (\<lambda>content.
                          addFile (basename inputPath []) content begin_archive)
            | Directory entries \<Rightarrow> addDirectoryToZip begin_archive entries []
            | Other \<Rightarrow> Inr begin_archive) (\<lambda>zipWriter.
     Inr (fst (finalize zipWriter))))"





definition noFiles :: fs where
  "noFiles p = None"





definition rejecting :: "string list \<Rightarrow> error + values" where
  "rejecting args = Inl ParseArgsFailed"

section \<open>Little-endian integers and parsers\<close>

lemma rd16_le16: "rd16 (ucast v) (ucast (drop_bit 8 v)) = v"
  unfolding rd16_def
  apply (rule bit_word_eqI)
  apply (simp add: bit_simps)
  apply (auto simp: not_less)
  done

lemma rd32_le32: "rd32 (ucast v) (ucast (drop_bit 8 v)) (ucast (drop_bit 16 v)) (ucast (drop_bit 24 v)) = v"
  unfolding rd32_def
proof (rule bit_word_eqI)
  fix n assume n: "n < LENGTH(32)"
  let ?w = "ucast (ucast v :: byte) OR push_bit 8 (ucast (ucast (drop_bit 8 v) :: byte)) OR
              push_bit 16 (ucast (ucast (drop_bit 16 v) :: byte)) OR push_bit 24 (ucast (ucast (drop_bit 24 v) :: byte)) :: 32 word"
  consider "n < 8" | "8 \<le> n" "n < 16" | "16 \<le> n" "n < 24" | "24 \<le> n" by linarith
  then show "bit ?w n = bit v n"
  proof cases
    case 1
    then show ?thesis by (simp add: bit_simps)
  next
    case 2
    then have "n - 8 < 8" "n - 8 < 32" by simp_all
    with 2 show ?thesis by (simp add: bit_simps)
  next
    case 3
    then have "\<not> n - 8 < 8" "n - 16 < 8" "n - 16 < 32" by simp_all
    with 3 show ?thesis by (simp add: bit_simps)
  next
    case 4
    then have "\<not> n - 8 < 8" "\<not> n - 16 < 8" "n - 24 < 8" "n - 24 < 32" using n by simp_all
    with 4 n show ?thesis by (simp add: bit_simps)
  qed
qed

lemma length_le16 [simp]: "length (le16 v) = 2" by (simp add: le16_def)

lemma length_le32 [simp]: "length (le32 v) = 4" by (simp add: le32_def)

lemma remaining_advance:
  "remaining c = xs @ r \<Longrightarrow> n = length xs \<Longrightarrow> remaining (c\<lparr>pos := pos c + n\<rparr>) = r"
proof -
  assume a: "remaining c = xs @ r" and n: "n = length xs"
  have "drop (pos c + n) (buf c) = drop n (drop (pos c) (buf c))"
    by (simp add: add.commute)
  also have "\<dots> = r" using a n by (simp add: remaining_def)
  finally show ?thesis by (simp add: remaining_def)
qed

lemma reads_U16: "reads readU16 (le16 v) v"
  unfolding reads_def readU16_def le16_def by (simp add: rd16_le16)

lemma reads_U32: "reads readU32 (le32 v) v"
  unfolding reads_def readU32_def le32_def by (simp add: rd32_le32)

lemma reads_Sized: "n = length xs \<Longrightarrow> reads (readSized n) xs xs"
  unfolding reads_def readSized_def readBytes_def by simp

lemma reads_return: "reads (\<lambda>c. Inr (v, c)) [] v"
  unfolding reads_def by simp

lemma reads_bind:
  assumes "reads f xs v" and "reads (g v) ys w"
  shows "reads (\<lambda>c. bindE (f c) (\<lambda>(x, c'). g x c')) (xs @ ys) w"
  unfolding reads_def
proof (intro allI impI)
  fix c r assume a: "remaining c = (xs @ ys) @ r"
  then have a1: "remaining c = xs @ (ys @ r)" by simp
  have 1: "f c = Inr (v, c\<lparr>pos := pos c + length xs\<rparr>)"
    using assms(1) a1 unfolding reads_def by blast
  have 2: "remaining (c\<lparr>pos := pos c + length xs\<rparr>) = ys @ r"
    using remaining_advance[OF a1] by simp
  have 3: "g v (c\<lparr>pos := pos c + length xs\<rparr>) = Inr (w, c\<lparr>pos := pos c + length xs\<rparr>\<lparr>pos := pos (c\<lparr>pos := pos c + length xs\<rparr>) + length ys\<rparr>)"
    using assms(2) 2 unfolding reads_def by blast
  show "bindE (f c) (\<lambda>(x, c'). g x c') = Inr (w, c\<lparr>pos := pos c + length (xs @ ys)\<rparr>)"
    by (simp add: 1 3 add.assoc)
qed

lemma reads_check:
  "reads F ys w \<Longrightarrow> reads (\<lambda>c. if v \<noteq> v then E else F c) ys w"
  by simp

section \<open>Decoding what the codec encodes\<close>

lemma encodeCentralRecord_eq:
  "encodeCentralRecord m =
     le32 CENTRAL_SIG @ le32 (crc m) @ le32 (compressedSize m) @ le32 (uncompressedSize m) @
     le16 (of_nat (length (name m))) @ le32 (externalAttributes (isDirectory m)) @
     le32 (localHeaderOffset m) @ bytes_of_string (name m) @ []"
  by (simp add: encodeCentralRecord_def writeU32_def writeU16_def writeBytes_def)

lemma string_of_bytes_inv [simp]: "string_of_bytes (bytes_of_string s) = s"
proof -
  have "char_of (unat (of_nat (of_char c :: nat) :: byte)) = c" for c :: char
  proof -
    have "(of_char c :: nat) mod 256 = of_char c" by simp
    then have "(of_char c :: nat) < 256" by (metis mod_less_divisor zero_less_numeral)
    then have "unat (of_nat (of_char c :: nat) :: byte) = of_char c"
      by (simp add: unat_of_nat)
    then show ?thesis by simp
  qed
  then show ?thesis
    by (simp add: string_of_bytes_def bytes_of_string_def o_def map_idI)
qed

lemma length_bytes_of_string [simp]: "length (bytes_of_string s) = length s"
  by (simp add: bytes_of_string_def)

lemma unat_len16: "n < 65536 \<Longrightarrow> unat (of_nat n :: 16 word) = n"
  by (simp add: unat_of_nat)

lemma unat_len32: "n < 4294967296 \<Longrightarrow> unat (of_nat n :: 32 word) = n"
  by (simp add: unat_of_nat)

lemma bit_externalAttributes [simp]: "bit (externalAttributes d) 30 = d"
  by (simp add: externalAttributes_def)

lemma reads_decodeCentralRecord:
  assumes "length (name m) < 65536"
  shows "reads decodeCentralRecord (encodeCentralRecord m) m"
proof -
  have "reads decodeCentralRecord (encodeCentralRecord m)
          \<lparr>name = string_of_bytes (bytes_of_string (name m)),
           isDirectory = bit (externalAttributes (isDirectory m)) 30,
           uncompressedSize = uncompressedSize m, compressedSize = compressedSize m,
           crc = crc m, localHeaderOffset = localHeaderOffset m\<rparr>"
    unfolding encodeCentralRecord_eq decodeCentralRecord_def
    apply (rule reads_bind, rule reads_U32, rule reads_check)
    apply (rule reads_bind, rule reads_U32)
    apply (rule reads_bind, rule reads_U32)
    apply (rule reads_bind, rule reads_U32)
    apply (rule reads_bind, rule reads_U16)
    apply (rule reads_bind, rule reads_U32)
    apply (rule reads_bind, rule reads_U32)
    apply (rule reads_bind, rule reads_Sized)
     apply (simp add: unat_len16 assms)
    apply (rule reads_return)
    done
  moreover have "\<lparr>name = name m, isDirectory = isDirectory m,
           uncompressedSize = uncompressedSize m, compressedSize = compressedSize m,
           crc = crc m, localHeaderOffset = localHeaderOffset m\<rparr> = m"
    by (cases m) simp
  ultimately show ?thesis by simp
qed

lemma encodeLocalHeader_eq:
  "encodeLocalHeader m =
     le32 LOCAL_SIG @ le16 VERSION_NEEDED @ le16 0 @ le16 0 @ le16 MOD_TIME @ le16 MOD_DATE @
     le32 (crc m) @ le32 (compressedSize m) @ le32 (uncompressedSize m) @
     le16 (of_nat (length (name m))) @ bytes_of_string (name m)"
  by (simp add: encodeLocalHeader_def writeU32_def writeU16_def writeBytes_def)

lemma reads_decodeLocalEntry:
  assumes "length (name m) < 65536" "unat (compressedSize m) = length content"
  shows "reads decodeLocalEntry (encodeLocalHeader m @ content)
           \<lparr>le_name = name m, le_crc = crc m, le_compressedSize = compressedSize m,
            le_uncompressedSize = uncompressedSize m, le_content = content\<rparr>"
proof -
  have "reads decodeLocalEntry
          (le32 LOCAL_SIG @ le16 VERSION_NEEDED @ le16 0 @ le16 0 @ le16 MOD_TIME @ le16 MOD_DATE @
           le32 (crc m) @ le32 (compressedSize m) @ le32 (uncompressedSize m) @
           le16 (of_nat (length (name m))) @ bytes_of_string (name m) @ content @ [])
          \<lparr>le_name = string_of_bytes (bytes_of_string (name m)), le_crc = crc m,
           le_compressedSize = compressedSize m,
           le_uncompressedSize = uncompressedSize m, le_content = content\<rparr>"
    unfolding decodeLocalEntry_def
    apply (rule reads_bind, rule reads_U32, rule reads_check)
    apply (rule reads_bind, rule reads_U16)
    apply (rule reads_bind, rule reads_U16)
    apply (rule reads_bind, rule reads_U16)
    apply (rule reads_bind, rule reads_U16)
    apply (rule reads_bind, rule reads_U16)
    apply (rule reads_bind, rule reads_U32)
    apply (rule reads_bind, rule reads_U32)
    apply (rule reads_bind, rule reads_U32)
    apply (rule reads_bind, rule reads_U16)
    apply (rule reads_bind, rule reads_Sized)
     apply (simp add: unat_len16 assms)
    apply (rule reads_bind, rule reads_Sized)
     apply (simp add: assms)
    apply (rule reads_return)
    done
  then show ?thesis by (simp add: encodeLocalHeader_eq)
qed

lemma encodeEOCD_eq:
  "encodeEOCD n s off = le32 EOCD_SIG @ le16 n @ le32 s @ le32 off @ le16 0 @ []"
  by (simp add: encodeEOCD_def writeU32_def writeU16_def)

lemma reads_decodeEOCD: "reads decodeEOCD (encodeEOCD n s off) (n, s, off)"
  unfolding encodeEOCD_eq decodeEOCD_def
  apply (rule reads_bind, rule reads_U32)
  apply (rule reads_bind, rule reads_U16)
  apply (rule reads_bind, rule reads_U32)
  apply (rule reads_bind, rule reads_U32)
  apply (rule reads_bind, rule reads_U16)
  apply (rule reads_return)
  done

lemma reads_decodeCentralRecords:
  assumes "\<forall>m \<in> set ms. length (name m) < 65536"
  shows "reads (decodeCentralRecords (length ms)) (centralDirectory ms) ms"
  using assms
proof (induction ms)
  case Nil
  show ?case by (simp add: centralDirectory_def reads_def)
next
  case (Cons m ms)
  have eq: "decodeCentralRecords (Suc (length ms)) =
      (\<lambda>c. bindE (decodeCentralRecord c) (\<lambda>(m, c').
         bindE (decodeCentralRecords (length ms) c') (\<lambda>(ms, c''). Inr (m # ms, c''))))"
    by (rule ext) simp
  have "reads (decodeCentralRecords (Suc (length ms)))
          (encodeCentralRecord m @ centralDirectory ms @ []) (m # ms)"
    unfolding eq
    apply (rule reads_bind, rule reads_decodeCentralRecord)
    using Cons.prems apply simp
    apply (rule reads_bind, rule Cons.IH)
    using Cons.prems apply simp
    apply (rule reads_return)
    done
  then show ?case by (simp add: centralDirectory_def del: decodeCentralRecords.simps)
qed

section \<open>Opening an archive laid out by the writer\<close>

lemma length_encodeEOCD [simp]: "length (encodeEOCD n s off) = 16"
  by (simp add: encodeEOCD_eq)

lemma reads_at:
  assumes "reads f xs v" "bs = pre @ xs @ post"
  shows "f \<lparr>buf = bs, pos = length pre\<rparr> = Inr (v, \<lparr>buf = bs, pos = length pre + length xs\<rparr>)"
proof -
  have "remaining \<lparr>buf = bs, pos = length pre\<rparr> = xs @ post"
    by (simp add: remaining_def assms(2))
  with assms(1) show ?thesis unfolding reads_def by fastforce
qed

lemma findEOCD_hit: "signatureAt bs i \<Longrightarrow> findEOCD bs i (MAX_COMMENT + 1) = Some i"
proof -
  assume a: "signatureAt bs i"
  have "MAX_COMMENT + 1 = Suc MAX_COMMENT" by simp
  then show ?thesis using a by (simp only: findEOCD.simps if_True)
qed

lemma signatureAt_eocd: "signatureAt (pre @ encodeEOCD n s off) (length pre)"
  by (simp add: signatureAt_def encodeEOCD_eq)

lemma open_archive_layout:
  assumes names: "\<forall>m \<in> set ms. length (name m) < 65536"
    and count: "length ms < 65536"
    and lb: "length B < 4294967296"
    and lcd: "length (centralDirectory ms) < 4294967296"
  defines "eocd \<equiv> encodeEOCD (of_nat (length ms)) (of_nat (length (centralDirectory ms))) (of_nat (length B))"
  defines "bs \<equiv> B @ centralDirectory ms @ eocd"
  shows "open_archive bs = Inr \<lparr>bytes = bs, members = ms\<rparr>"
proof -
  let ?cd = "centralDirectory ms"
  have len: "length bs = length B + length ?cd + 16"
    by (simp add: bs_def eocd_def)
  have i: "length bs - EOCD_SIZE = length (B @ ?cd)"
    by (simp add: len EOCD_SIZE_def)
  have bs2: "bs = (B @ ?cd) @ eocd" by (simp add: bs_def)
  have hit: "findEOCD bs (length bs - EOCD_SIZE) (MAX_COMMENT + 1) = Some (length (B @ ?cd))"
  proof -
    have "signatureAt bs (length (B @ ?cd))"
      unfolding bs2 eocd_def by (rule signatureAt_eocd)
    then show ?thesis unfolding i by (rule findEOCD_hit)
  qed
  have e: "decodeEOCD \<lparr>buf = bs, pos = length (B @ ?cd)\<rparr> =
      Inr ((of_nat (length ms), of_nat (length ?cd), of_nat (length B)),
           \<lparr>buf = bs, pos = length (B @ ?cd) + length eocd\<rparr>)"
    by (rule reads_at[where post = "[]"]) (simp_all add: reads_decodeEOCD eocd_def bs_def)
  have c: "decodeCentralRecords (length ms) \<lparr>buf = bs, pos = length B\<rparr> =
      Inr (ms, \<lparr>buf = bs, pos = length B + length ?cd\<rparr>)"
    by (rule reads_at[where post = eocd]) (simp_all add: reads_decodeCentralRecords names bs_def)
  show ?thesis
    unfolding open_archive_def
    using hit e c count lb lcd
    by (simp add: len EOCD_SIZE_def malformed_def seek_def unat_len16 unat_len32 del: decodeCentralRecords.simps)
qed

section \<open>What the writer leaves in the builder\<close>

lemma length_encodeLocalHeader [simp]: "length (encodeLocalHeader m) = 28 + length (name m)"
  by (simp add: encodeLocalHeader_eq)

lemma length_encodeCentralRecord [simp]: "length (encodeCentralRecord m) = 26 + length (name m)"
  by (simp add: encodeCentralRecord_eq)

lemma stored_at_append: "stored_at bs m c \<Longrightarrow> stored_at (bs @ extra) m c"
  unfolding stored_at_def by (metis append.assoc)

lemma holds_append: "holds bs m item \<Longrightarrow> holds (bs @ extra) m item"
  unfolding holds_def by (simp add: stored_at_append)

lemma toForwardSlashes_id: "CHR 0x5C \<notin> set p \<Longrightarrow> toForwardSlashes p = p"
  by (induction p) (auto simp: toForwardSlashes_def)

lemma built_names: "built b items \<Longrightarrow> map name (pending b) = map fst items"
  unfolding built_def
  by (auto simp: list_all2_conv_all_nth holds_def intro!: nth_equalityI)

lemma local_size_snoc: "local_size (items @ [(p, bs)]) = local_size items + 28 + length p + length bs"
  by (simp add: local_size_def)

lemma addEntry_built:
  assumes b: "built b items"
    and v: "\<not> isAbsolutePath p" "\<not> hasDotDotSegment p"
    and fresh: "p \<notin> fst ` set items"
    and sz: "local_size items < 4294967296" "length bs < 4294967296"
  shows "\<exists>b'. addEntry p False bs b = Inr b' \<and> built b' (items @ [(p, bs)])"
proof -
  define m where "m = \<lparr>name = p, isDirectory = False,
                 uncompressedSize = of_nat (length bs),
                 compressedSize = of_nat (length bs),
                 crc = crc32 bs,
                 localHeaderOffset = of_nat (length (buffer b))\<rparr>"
  define b' where "b' = b\<lparr>buffer := buffer b @ encodeLocalHeader m @ bs, pending := pending b @ [m]\<rparr>"
  have nm: "p \<notin> set (map name (pending b))"
    using fresh built_names[OF b] by simp
  have ns: "\<not> sealed b" using b by (simp add: built_def)
  have r: "addEntry p False bs b = Inr b'"
    using v nm ns by (simp add: addEntry_def Let_def m_def b'_def writeBytes_def)
  have lb: "length (buffer b) = local_size items" using b by (simp add: built_def)
  have st: "stored_at (buffer b') m bs"
    unfolding stored_at_def
    apply (rule exI[of _ "buffer b"], rule exI[of _ "[]"])
    using sz lb by (simp add: b'_def m_def unat_len32)
  have h: "holds (buffer b') m (p, bs)"
    using st sz by (simp add: holds_def m_def unat_len32)
  have old: "list_all2 (holds (buffer b')) (pending b) items"
  proof -
    have "list_all2 (holds (buffer b)) (pending b) items" using b by (simp add: built_def)
    then show ?thesis
      by (rule list_all2_mono) (simp add: b'_def holds_append)
  qed
  have "built b' (items @ [(p, bs)])"
    unfolding built_def
    using ns old h lb
    by (simp add: b'_def list_all2_appendI local_size_snoc m_def)
  with r show ?thesis by blast
qed

lemma local_size_append: "local_size (xs @ ys) = local_size xs + local_size ys"
  by (simp add: local_size_def)

lemma write_all_built:
  assumes "built b items"
    and "distinct (map fst (items @ pairs))"
    and "\<forall>(p, bs) \<in> set pairs. valid_name p"
    and "local_size (items @ pairs) < 4294967296"
  shows "\<exists>b'. write_all pairs b = Inr b' \<and> built b' (items @ pairs)"
  using assms
proof (induction pairs arbitrary: b items)
  case Nil
  then show ?case by simp
next
  case (Cons x pairs)
  obtain p bs where x: "x = (p, bs)" by (cases x)
  have v: "valid_name p" using Cons.prems(3) x by simp
  have fresh: "p \<notin> fst ` set items" using Cons.prems(2) x by auto
  have sz: "local_size items < 4294967296" "length bs < 4294967296"
    using Cons.prems(4) x by (simp_all add: local_size_append local_size_def)
  obtain b1 where b1: "addEntry p False bs b = Inr b1" "built b1 (items @ [(p, bs)])"
    using addEntry_built[OF Cons.prems(1) _ _ fresh sz] v unfolding valid_name_def by blast
  have af: "addFile p bs b = Inr b1"
    using b1(1) v by (simp add: addFile_def valid_name_def toForwardSlashes_id)
  have "\<exists>b'. write_all pairs b1 = Inr b' \<and> built b' ((items @ [(p, bs)]) @ pairs)"
    by (rule Cons.IH[OF b1(2)]) (use Cons.prems x in auto)
  then show ?case using af x by simp
qed

lemma built_begin: "built begin_archive []"
  by (simp add: built_def begin_archive_def local_size_def)

lemma length_centralDirectory:
  "map name ms = map fst items \<Longrightarrow> length (centralDirectory ms) = central_size items"
proof (induction ms arbitrary: items)
  case Nil
  then show ?case by (simp add: centralDirectory_def central_size_def)
next
  case (Cons m ms)
  then obtain it rest where items: "items = it # rest" by (cases items) auto
  with Cons.prems have "name m = fst it" "map name ms = map fst rest" by auto
  with Cons.IH[of rest] show ?case
    by (cases it) (simp add: items centralDirectory_def central_size_def)
qed

lemma readEntry_stored:
  assumes f: "find (\<lambda>m. name m = nm) ms = Some m"
    and st: "stored_at bs m c"
    and n: "length (name m) < 65536"
    and cs: "unat (compressedSize m) = length c"
  shows "readEntry \<lparr>bytes = bs, members = ms\<rparr> nm =
           (if crc32 c \<noteq> crc m then Inl IntegrityError else Inr c)"
proof -
  obtain pre post where bs: "bs = pre @ (encodeLocalHeader m @ c) @ post"
    and pre: "length pre = unat (localHeaderOffset m)"
    using st unfolding stored_at_def by auto
  have "decodeLocalEntry \<lparr>buf = bs, pos = length pre\<rparr> =
      Inr (\<lparr>le_name = name m, le_crc = crc m, le_compressedSize = compressedSize m,
            le_uncompressedSize = uncompressedSize m, le_content = c\<rparr>,
           \<lparr>buf = bs, pos = length pre + length (encodeLocalHeader m @ c)\<rparr>)"
    by (rule reads_at[OF reads_decodeLocalEntry[OF n cs] bs])
  then show ?thesis
    using f pre by (simp add: readEntry_def seek_def)
qed

lemma find_distinct_name:
  assumes "distinct (map name ms)" "m \<in> set ms"
  shows "find (\<lambda>x. name x = name m) ms = Some m"
  using assms by (induction ms) auto

lemma finalize_bytes:
  "\<not> sealed b \<Longrightarrow>
   fst (finalize b) = buffer b @ centralDirectory (pending b) @
     encodeEOCD (of_nat (length (pending b))) (of_nat (length (centralDirectory (pending b))))
       (of_nat (length (buffer b)))"
  by (simp add: finalize_def Let_def writeBytes_def)

lemma built_length: "built b items \<Longrightarrow> length (pending b) = length items"
  by (auto simp: built_def dest: list_all2_lengthD)

lemma open_built:
  assumes b: "built b items" and f: "fits items"
  shows "open_archive (fst (finalize b)) = Inr \<lparr>bytes = fst (finalize b), members = pending b\<rparr>"
proof -
  have ns: "\<not> sealed b" using b by (simp add: built_def)
  have nm: "map name (pending b) = map fst items" by (rule built_names[OF b])
  have names: "\<forall>m \<in> set (pending b). length (name m) < 65536"
  proof
    fix m assume "m \<in> set (pending b)"
    then have "name m \<in> set (map name (pending b))" by simp
    then have "name m \<in> fst ` set items" by (simp add: nm)
    then show "length (name m) < 65536" using f by (auto simp: fits_def)
  qed
  have count: "length (pending b) < 65536"
    using f built_length[OF b] by (simp add: fits_def)
  have lb: "length (buffer b) < 4294967296"
    using b f by (simp add: built_def fits_def archive_size_def)
  have lcd: "length (centralDirectory (pending b)) < 4294967296"
    using length_centralDirectory[OF nm] f by (simp add: fits_def archive_size_def)
  show ?thesis
    unfolding finalize_bytes[OF ns]
    by (rule open_archive_layout[OF names count lb lcd])
qed

lemma readEntry_built:
  assumes b: "built b items" and f: "fits items" and d: "distinct (map fst items)"
    and i: "(p, c) \<in> set items"
  shows "readEntry \<lparr>bytes = fst (finalize b), members = pending b\<rparr> p = Inr c"
proof -
  have ns: "\<not> sealed b" using b by (simp add: built_def)
  have nm: "map name (pending b) = map fst items" by (rule built_names[OF b])
  have all: "list_all2 (holds (buffer b)) (pending b) items" using b by (simp add: built_def)
  obtain k where k: "k < length items" "items ! k = (p, c)"
    using i by (auto simp: in_set_conv_nth)
  define m where "m = pending b ! k"
  have kl: "k < length (pending b)" using k built_length[OF b] by simp
  have h: "holds (buffer b) m (p, c)"
    using all k kl by (auto simp: list_all2_conv_all_nth m_def)
  have mem: "m \<in> set (pending b)" using kl by (simp add: m_def)
  have dn: "distinct (map name (pending b))" using d nm by simp
  have fnd: "find (\<lambda>x. name x = p) (pending b) = Some m"
    using find_distinct_name[OF dn mem] h by (simp add: holds_def)
  have st: "stored_at (fst (finalize b)) m c"
    unfolding finalize_bytes[OF ns] using h by (simp add: holds_def stored_at_append)
  have n: "length (name m) < 65536"
    using h i f by (auto simp: holds_def fits_def)
  have cs: "unat (compressedSize m) = length c" using h by (simp add: holds_def)
  show ?thesis
    using readEntry_stored[OF fnd st n cs] h by (simp add: holds_def)
qed

text \<open>
  Claim C1. Files with distinct valid names, of a size the format can hold, are added to an
  empty archive in order; the archive is finalized and the bytes are opened. The writer
  accepts every file, the reader opens the bytes, and reading each name returns exactly
  the bytes that were added under it.
\<close>

theorem roundtrip:
  assumes d: "distinct (map fst pairs)"
    and v: "\<forall>(p, bs) \<in> set pairs. valid_name p"
    and f: "fits pairs"
  shows "\<exists>b r. write_all pairs begin_archive = Inr b \<and>
           open_archive (fst (finalize b)) = Inr r \<and>
           (\<forall>(p, bs) \<in> set pairs. readEntry r p = Inr bs)"
proof -
  have "local_size ([] @ pairs) < 4294967296"
    using f by (simp add: fits_def archive_size_def)
  with write_all_built[OF built_begin, of pairs] d v
  obtain b where b: "write_all pairs begin_archive = Inr b" "built b pairs"
    by auto
  have o: "open_archive (fst (finalize b)) = Inr \<lparr>bytes = fst (finalize b), members = pending b\<rparr>"
    by (rule open_built[OF b(2) f])
  have "\<forall>(p, bs) \<in> set pairs. readEntry \<lparr>bytes = fst (finalize b), members = pending b\<rparr> p = Inr bs"
    using readEntry_built[OF b(2) f d] by auto
  with b(1) o show ?thesis by blast
qed

theorem roundtrip_witness:
  "distinct (map fst [(''a.txt'', [0x41, 0x42 :: byte]), (''sub/b.txt'', [])]) \<and>
   valid_name ''a.txt'' \<and> valid_name ''sub/b.txt'' \<and>
   fits [(''a.txt'', [0x41, 0x42 :: byte]), (''sub/b.txt'', [])] \<and>
   (\<exists>b r. write_all [(''a.txt'', [0x41, 0x42]), (''sub/b.txt'', [])] begin_archive = Inr b \<and>
      open_archive (fst (finalize b)) = Inr r \<and>
      readEntry r ''a.txt'' = Inr [0x41, 0x42] \<and> readEntry r ''sub/b.txt'' = Inr [])"
proof -
  let ?P = "[(''a.txt'', [0x41, 0x42 :: byte]), (''sub/b.txt'', [])]"
  have d: "distinct (map fst ?P)" by simp
  have v1: "valid_name ''a.txt''" and v2: "valid_name ''sub/b.txt''"
    by (simp_all add: valid_name_def isAbsolutePath_def hasDotDotSegment_def)
  have v: "\<forall>(p, bs) \<in> set ?P. valid_name p" using v1 v2 by simp
  have f: "fits ?P"
    by (simp add: fits_def archive_size_def local_size_def central_size_def)
  show ?thesis using d v1 v2 f roundtrip[OF d v f] by auto
qed

section \<open>The checksum detects a changed byte\<close>

lemma b31: "\<not> bit (drop_bit 1 (s::32 word)) 31"
  by (auto simp: bit_simps dest: bit_imp_le_length)

lemma pd1: "bit s 0 \<Longrightarrow> 2 * (drop_bit 1 s) OR 1 = (s::32 word)"
  by (intro bit_word_eqI) (auto simp: bit_simps bit_0 not_less Suc_le_eq)

lemma pd0: "\<not> bit s 0 \<Longrightarrow> 2 * (drop_bit 1 s) = (s::32 word)"
  by (intro bit_word_eqI) (auto simp: bit_simps bit_0 not_less intro: ccontr)

lemma crc_unbit_bit: "crc_unbit (crc_bit s) = s"
proof (cases "bit s 0")
  case True
  have "bit (drop_bit 1 s XOR 0xEDB88320) 31"
    using b31[of s] by (simp add: bit_xor_iff)
  then show ?thesis using True pd1[OF True]
    by (simp add: crc_unbit_def crc_bit_def xor.assoc)
next
  case False
  then show ?thesis using b31[of s] pd0[OF False]
    by (simp add: crc_unbit_def crc_bit_def)
qed

lemma crc_bit_inj: "crc_bit s = crc_bit t \<Longrightarrow> s = t"
  by (metis crc_unbit_bit)

lemma crc_bit_pow_inj: "(crc_bit ^^ n) s = (crc_bit ^^ n) t \<Longrightarrow> s = t"
  by (induction n) (auto dest: crc_bit_inj)

lemma crc_byte_inj_state: "crc_byte s b = crc_byte t b \<Longrightarrow> s = t"
  unfolding crc_byte_def by (drule crc_bit_pow_inj) (metis bit.xor_left_self xor.commute)

lemma ucast_byte_inj: "(ucast (a::byte) :: 32 word) = ucast b \<Longrightarrow> a = b"
  using unsigned_less[of a, where ?'a = nat] unsigned_less[of b, where ?'a = nat]
  by (simp add: word_eq_iff_unsigned[where ?'a = nat] unsigned_ucast_eq take_bit_eq_mod)

lemma crc_byte_inj_byte: "crc_byte s a = crc_byte s b \<Longrightarrow> a = b"
  unfolding crc_byte_def by (drule crc_bit_pow_inj) (metis bit.xor_left_self ucast_byte_inj)

lemma foldl_crc_inj: "foldl crc_byte s bs = foldl crc_byte t bs \<Longrightarrow> s = t"
  by (induction bs arbitrary: s t) (auto dest: crc_byte_inj_state)

lemma crc32_detects_byte_change:
  "a \<noteq> b \<Longrightarrow> crc32 (xs @ a # ys) \<noteq> crc32 (xs @ b # ys)"
  unfolding crc32_def
  by (auto dest!: foldl_crc_inj crc_byte_inj_byte)

lemma flipped_differs: "j < 8 \<Longrightarrow> (a::byte) XOR push_bit j 1 \<noteq> a"
proof
  assume j: "j < 8" and e: "a XOR push_bit j 1 = a"
  have "bit (a XOR push_bit j 1) j = (\<not> bit a j)"
    using j by (simp add: bit_simps)
  with e show False by simp
qed

lemma crc32_detects_flip:
  assumes "i < length c" "j < 8"
  shows "crc32 (flipBit c i j) \<noteq> crc32 c"
proof -
  have 1: "c = take i c @ c ! i # drop (Suc i) c"
    using assms(1) by (simp add: id_take_nth_drop)
  have 2: "flipBit c i j = take i c @ (c ! i XOR push_bit j 1) # drop (Suc i) c"
    using assms(1) by (simp add: flipBit_def upd_conv_take_nth_drop)
  have "crc32 (take i c @ (c ! i XOR push_bit j 1) # drop (Suc i) c)
        \<noteq> crc32 (take i c @ c ! i # drop (Suc i) c)"
    by (rule crc32_detects_byte_change) (rule flipped_differs[OF assms(2)])
  then show ?thesis using 1 2 by simp
qed

lemma flipBit_inside:
  "flipBit (pre @ c @ post) (length pre + i) j = pre @ flipBit (c @ post) i j"
  by (simp add: flipBit_def list_update_append)

lemma flipBit_front:
  "i < length c \<Longrightarrow> flipBit (c @ post) i j = flipBit c i j @ post"
  by (simp add: flipBit_def list_update_append nth_append)

lemma length_flipBit [simp]: "length (flipBit c i j) = length c"
  by (simp add: flipBit_def)

lemma write_all_begin:
  assumes d: "distinct (map fst pairs)"
    and v: "\<forall>(p, bs) \<in> set pairs. valid_name p"
    and f: "fits pairs"
  shows "\<exists>b. write_all pairs begin_archive = Inr b \<and> built b pairs"
proof -
  have "local_size ([] @ pairs) < 4294967296"
    using f by (simp add: fits_def archive_size_def)
  with write_all_built[OF built_begin, of pairs] d v show ?thesis by auto
qed

text \<open>
  Claim C4. In an archive written from files with distinct valid names, one bit of one
  content byte of a member is flipped, every other byte (its checksum field included)
  staying as written. The archive still opens, and reading that member fails with
  \<open>IntegrityError\<close>.
\<close>

theorem crc_enforcement:
  assumes d: "distinct (map fst pairs)"
    and v: "\<forall>(p, bs) \<in> set pairs. valid_name p"
    and f: "fits pairs"
    and w: "write_all pairs begin_archive = Inr b"
    and m: "m \<in> set (pending b)"
    and i: "i < unat (uncompressedSize m)"
    and j: "j < 8"
  shows "\<exists>r. open_archive (flipBit (fst (finalize b)) (content_offset m + i) j) = Inr r \<and>
           readEntry r (name m) = Inl IntegrityError"
proof -
  have b: "built b pairs" using write_all_begin[OF d v f] w by auto
  have ns: "\<not> sealed b" using b by (simp add: built_def)
  have nm: "map name (pending b) = map fst pairs" by (rule built_names[OF b])
  obtain k where k: "k < length (pending b)" "pending b ! k = m"
    using m by (auto simp: in_set_conv_nth)
  obtain p c where pc: "pairs ! k = (p, c)" by (cases "pairs ! k")
  have kl: "k < length pairs" using k built_length[OF b] by simp
  have h: "holds (buffer b) m (p, c)"
    using b k kl pc by (auto simp: built_def list_all2_conv_all_nth)
  have ic: "i < length c" using h i by (simp add: holds_def)
  obtain pre post where buf: "buffer b = pre @ encodeLocalHeader m @ c @ post"
    and pre: "length pre = unat (localHeaderOffset m)"
    using h unfolding holds_def stored_at_def by auto
  let ?cd = "centralDirectory (pending b)"
  let ?B = "pre @ encodeLocalHeader m @ flipBit c i j @ post"
  let ?eocd = "encodeEOCD (of_nat (length (pending b))) (of_nat (length ?cd)) (of_nat (length ?B))"
  have lB: "length ?B = length (buffer b)" by (simp add: buf)
  have co: "content_offset m + i = length (pre @ encodeLocalHeader m) + i"
    by (simp add: content_offset_def pre)
  have arc: "fst (finalize b) = (pre @ encodeLocalHeader m) @ c @ (post @ ?cd @ ?eocd)"
    unfolding finalize_bytes[OF ns] lB by (simp add: buf)
  have arc': "flipBit (fst (finalize b)) (content_offset m + i) j = ?B @ ?cd @ ?eocd"
    unfolding arc co flipBit_inside by (simp add: flipBit_front[OF ic])
  have names: "\<forall>x \<in> set (pending b). length (name x) < 65536"
  proof
    fix x assume "x \<in> set (pending b)"
    then have "name x \<in> set (map name (pending b))" by simp
    then have "name x \<in> fst ` set pairs" by (simp add: nm)
    then show "length (name x) < 65536" using f by (auto simp: fits_def)
  qed
  have count: "length (pending b) < 65536"
    using f built_length[OF b] by (simp add: fits_def)
  have lb: "length ?B < 4294967296"
    unfolding lB using b f by (simp add: built_def fits_def archive_size_def)
  have lcd: "length ?cd < 4294967296"
    using length_centralDirectory[OF nm] f by (simp add: fits_def archive_size_def)
  have o: "open_archive (?B @ ?cd @ ?eocd) = Inr \<lparr>bytes = ?B @ ?cd @ ?eocd, members = pending b\<rparr>"
    by (rule open_archive_layout[OF names count lb lcd])
  have dn: "distinct (map name (pending b))" using d nm by simp
  have fnd: "find (\<lambda>x. name x = name m) (pending b) = Some m"
    by (rule find_distinct_name[OF dn m])
  have st: "stored_at (?B @ ?cd @ ?eocd) m (flipBit c i j)"
    unfolding stored_at_def
    by (rule exI[of _ pre], rule exI[of _ "post @ ?cd @ ?eocd"]) (simp add: pre)
  have cs: "unat (compressedSize m) = length (flipBit c i j)"
    using h by (simp add: holds_def)
  have "crc32 (flipBit c i j) \<noteq> crc m"
    using crc32_detects_flip[OF ic j] h by (simp add: holds_def)
  then have "readEntry \<lparr>bytes = ?B @ ?cd @ ?eocd, members = pending b\<rparr> (name m) = Inl IntegrityError"
    using readEntry_stored[OF fnd st _ cs] names m by simp
  with o show ?thesis unfolding arc' by blast
qed

theorem crc_enforcement_witness:
  "distinct (map fst [(''a.txt'', [0x41, 0x42 :: byte])]) \<and>
   valid_name ''a.txt'' \<and>
   fits [(''a.txt'', [0x41, 0x42 :: byte])] \<and>
   write_all [(''a.txt'', [0x41, 0x42])] begin_archive =
     Inr (projr (write_all [(''a.txt'', [0x41, 0x42])] begin_archive)) \<and>
   \<lparr>name = ''a.txt'', isDirectory = False, uncompressedSize = 2, compressedSize = 2,
     crc = crc32 [0x41, 0x42], localHeaderOffset = 0\<rparr>
     \<in> set (pending (projr (write_all [(''a.txt'', [0x41, 0x42])] begin_archive))) \<and>
   (1::nat) < unat (uncompressedSize \<lparr>name = ''a.txt'', isDirectory = False, uncompressedSize = 2,
     compressedSize = 2, crc = crc32 [0x41, 0x42], localHeaderOffset = 0\<rparr>) \<and>
   (3::nat) < 8 \<and>
   (\<exists>r. open_archive (flipBit (fst (finalize (projr (write_all [(''a.txt'', [0x41, 0x42])] begin_archive))))
          (content_offset \<lparr>name = ''a.txt'', isDirectory = False, uncompressedSize = 2,
             compressedSize = 2, crc = crc32 [0x41, 0x42], localHeaderOffset = 0\<rparr> + 1) 3) = Inr r \<and>
        readEntry r (name \<lparr>name = ''a.txt'', isDirectory = False, uncompressedSize = 2,
             compressedSize = 2, crc = crc32 [0x41, 0x42], localHeaderOffset = 0\<rparr>) = Inl IntegrityError)"
proof -
  let ?P = "[(''a.txt'', [0x41, 0x42 :: byte])]"
  let ?m = "\<lparr>name = ''a.txt'', isDirectory = False, uncompressedSize = 2, compressedSize = 2,
     crc = crc32 [0x41, 0x42], localHeaderOffset = 0\<rparr>"
  have d: "distinct (map fst ?P)" by simp
  have v1: "valid_name ''a.txt''"
    by (simp add: valid_name_def isAbsolutePath_def hasDotDotSegment_def)
  have v: "\<forall>(p, bs) \<in> set ?P. valid_name p" using v1 by simp
  have f: "fits ?P"
    by (simp add: fits_def archive_size_def local_size_def central_size_def)
  have w: "write_all ?P begin_archive = Inr (projr (write_all ?P begin_archive))"
    by (simp add: addFile_def addEntry_def begin_archive_def toForwardSlashes_def
        isAbsolutePath_def hasDotDotSegment_def Let_def)
  have m: "?m \<in> set (pending (projr (write_all ?P begin_archive)))"
    by (simp add: addFile_def addEntry_def begin_archive_def toForwardSlashes_def
        isAbsolutePath_def hasDotDotSegment_def Let_def)
  have i: "(1::nat) < unat (uncompressedSize ?m)" by simp
  have j: "(3::nat) < 8" by simp
  show ?thesis using d v1 f w m i j crc_enforcement[OF d v f w m i j] by blast
qed

section \<open>Path validity\<close>

lemma split_on_nonempty [simp]: "split_on c p \<noteq> []"
  by (induction p) (auto split: list.splits)

lemma split_on_no_sep: "c \<notin> set s \<Longrightarrow> split_on c s = [s]"
  by (induction s) auto

lemma split_on_toForwardSlashes:
  "split_on CHR ''/'' (toForwardSlashes p) =
     concat (map (\<lambda>s. split_on CHR ''/'' (toForwardSlashes s)) (split_on CHR ''/'' p))"
proof (induction p)
  case Nil
  show ?case by (simp add: toForwardSlashes_def)
next
  case (Cons x xs)
  obtain s ss where s: "split_on CHR ''/'' xs = s # ss"
    by (cases "split_on CHR ''/'' xs") auto
  obtain t ts where t: "split_on CHR ''/'' (toForwardSlashes s) = t # ts"
    by (cases "split_on CHR ''/'' (toForwardSlashes s)") auto
  have IH: "split_on CHR ''/'' (toForwardSlashes xs) =
      (t # ts) @ concat (map (\<lambda>s. split_on CHR ''/'' (toForwardSlashes s)) ss)"
    using Cons.IH s t by simp
  have c: "toForwardSlashes (y # ys) = (if y = CHR 0x5C then CHR ''/'' else y) # toForwardSlashes ys" for y ys
    by (simp add: toForwardSlashes_def)
  consider "x = CHR ''/''" | "x = CHR 0x5C" | "x \<noteq> CHR ''/''" "x \<noteq> CHR 0x5C" by blast
  then show ?case
  proof cases
    case 1
    then show ?thesis using IH s t by (simp add: c toForwardSlashes_def)
  next
    case 2
    then show ?thesis using IH s t by (simp add: c)
  next
    case 3
    then show ?thesis using IH s t by (simp add: c)
  qed
qed

lemma dotdot_survives:
  assumes "hasDotDotSegment p"
  shows "hasDotDotSegment (toForwardSlashes p)"
proof -
  have "split_on CHR ''/'' (toForwardSlashes ''..'') = [''..'']"
    by (simp add: toForwardSlashes_def)
  then show ?thesis
    using assms unfolding hasDotDotSegment_def split_on_toForwardSlashes[of p]
    by (auto intro!: bexI[of _ "''..''"])
qed

lemma absolute_survives: "isAbsolutePath p \<Longrightarrow> isAbsolutePath (toForwardSlashes p)"
  by (cases p) (auto simp: isAbsolutePath_def toForwardSlashes_def)

text \<open>
  Claim C2. On an archive under construction, adding a file under a path that is absolute
  or has a \<open>..\<close> segment fails with \<open>InvalidPath\<close>.
\<close>

theorem addFile_rejects_traversal:
  assumes "\<not> sealed b" and "isAbsolutePath path \<or> hasDotDotSegment path"
  shows "addFile path content b = Inl InvalidPath"
  using assms absolute_survives[of path] dotdot_survives[of path]
  by (auto simp: addFile_def addEntry_def)

theorem addFile_rejects_traversal_witness:
  "\<not> sealed begin_archive \<and>
   (isAbsolutePath ''/abs'' \<or> hasDotDotSegment ''/abs'') \<and>
   addFile ''/abs'' [0x41] begin_archive = Inl InvalidPath \<and>
   (isAbsolutePath ''../x'' \<or> hasDotDotSegment ''../x'') \<and>
   addFile ''../x'' [0x41] begin_archive = Inl InvalidPath"
proof -
  have s: "\<not> sealed begin_archive" by (simp add: begin_archive_def)
  have a: "isAbsolutePath ''/abs'' \<or> hasDotDotSegment ''/abs''"
    by (simp add: isAbsolutePath_def)
  have b: "isAbsolutePath ''../x'' \<or> hasDotDotSegment ''../x''"
    by (simp add: hasDotDotSegment_def)
  show ?thesis
    using s a b addFile_rejects_traversal[OF s a, of "[0x41]"]
      addFile_rejects_traversal[OF s b, of "[0x41]"] by blast
qed

section \<open>Runs of writer operations\<close>

lemma addEntry_stored_sizes:
  "addEntry nm d bs b = Inr b' \<Longrightarrow> stored_sizes b \<Longrightarrow> stored_sizes b'"
  by (auto simp: addEntry_def stored_sizes_def Let_def split: if_splits)

lemma finalize_pending: "pending (snd (finalize b)) = pending b"
  by (simp add: finalize_def Let_def)

lemma apply_op_stored_sizes:
  "apply_op x b = Inr b' \<Longrightarrow> stored_sizes b \<Longrightarrow> stored_sizes b'"
  by (cases x) (auto simp: addFile_def addDirectory_def stored_sizes_def finalize_pending
      dest: addEntry_stored_sizes[unfolded stored_sizes_def])

lemma bindE_Inr: "bindE r f = Inr y \<Longrightarrow> \<exists>x. r = Inr x \<and> f x = Inr y"
  by (cases r) auto

lemma run_writer_stored_sizes:
  "run_writer ops b = Inr b' \<Longrightarrow> stored_sizes b \<Longrightarrow> stored_sizes b'"
proof (induction ops arbitrary: b)
  case Nil
  then show ?case by simp
next
  case (Cons x ops)
  from Cons.prems(1) obtain b1 where "apply_op x b = Inr b1" "run_writer ops b1 = Inr b'"
    by (auto dest: bindE_Inr)
  then show ?case using Cons.IH apply_op_stored_sizes Cons.prems(2) by blast
qed

section \<open>Joining and normalising ordinary paths\<close>

lemma split_on_append_sep:
  "c \<notin> set s \<Longrightarrow> split_on c (s @ c # rest) = s # split_on c rest"
  by (induction s) auto

lemma split_on_join:
  "segs \<noteq> [] \<Longrightarrow> \<forall>s \<in> set segs. CHR ''/'' \<notin> set s \<Longrightarrow>
   split_on CHR ''/'' (join_with ''/'' segs) = segs"
proof (induction "''/''" segs rule: join_with.induct)
  case 1
  then show ?case by simp
next
  case (2 s)
  then show ?case by (simp add: split_on_no_sep)
next
  case (3 s t ss)
  then show ?case by (simp add: split_on_append_sep)
qed

lemma join_with_snoc:
  "segs \<noteq> [] \<Longrightarrow> join_with sep (segs @ [s]) = join_with sep segs @ sep @ s"
  by (induction sep segs rule: join_with.induct) auto

lemma join_with_append:
  "xs \<noteq> [] \<Longrightarrow> ys \<noteq> [] \<Longrightarrow>
   join_with sep (xs @ ys) = join_with sep xs @ sep @ join_with sep ys"
proof (induction sep xs rule: join_with.induct)
  case (2 sep s)
  then show ?case by (cases ys) auto
qed auto

lemma foldl_plain:
  "\<forall>s \<in> set segs. plain s \<Longrightarrow> foldl (normalize_step a) st segs = rev segs @ st"
  by (induction segs arbitrary: st) (auto simp: plain_def)

lemma plain_hd: "plain s \<Longrightarrow> hd s \<noteq> CHR ''/''"
  by (cases s) (auto simp: plain_def)

lemma plain_last: "plain s \<Longrightarrow> last s \<noteq> CHR ''/''"
  unfolding plain_def by (metis last_in_set)

lemma plain_nonempty: "plain s \<Longrightarrow> s \<noteq> []"
  by (simp add: plain_def)

lemma join_nonempty:
  assumes "segs \<noteq> []" "\<forall>s \<in> set segs. plain s"
  shows "join_with ''/'' segs \<noteq> []"
proof (cases segs)
  case Nil
  then show ?thesis using assms by simp
next
  case (Cons s ss)
  then show ?thesis using assms by (cases ss) (auto simp: plain_def)
qed

lemma hd_join:
  assumes "segs \<noteq> []" "\<forall>s \<in> set segs. plain s"
  shows "hd (join_with ''/'' segs) \<noteq> CHR ''/''"
proof (cases segs)
  case Nil
  then show ?thesis using assms by simp
next
  case (Cons s ss)
  then have ps: "plain s" using assms by simp
  have "s \<noteq> []" "hd s \<noteq> CHR ''/''" using plain_hd[OF ps] plain_nonempty[OF ps] by simp_all
  then show ?thesis using Cons by (cases ss) (auto simp: hd_append)
qed

lemma last_join:
  assumes "segs \<noteq> []" "\<forall>s \<in> set segs. plain s"
  shows "last (join_with ''/'' segs) \<noteq> CHR ''/''"
  using assms
proof (induction segs rule: rev_induct)
  case Nil
  then show ?case by simp
next
  case (snoc s segs)
  have ps: "plain s" using snoc.prems by simp
  have "s \<noteq> []" "last s \<noteq> CHR ''/''" using plain_last[OF ps] plain_nonempty[OF ps] by simp_all
  then show ?case
    by (cases "segs = []") (simp_all add: join_with_snoc)
qed

lemma normalizeString_join:
  assumes "ws \<noteq> []" "\<forall>s \<in> set ws. CHR ''/'' \<notin> set s"
  shows "normalizeString (join_with ''/'' ws) al =
           join_with ''/'' (rev (foldl (normalize_step al) [] ws))"
  by (simp add: normalizeString_def split_on_join[OF assms])

lemma render_as_join:
  assumes "a \<or> xs \<noteq> []"
  shows "render a xs = join_with ''/'' (lead a xs @ xs)"
proof (cases xs)
  case Nil
  then show ?thesis using assms by (simp add: render_def lead_def)
next
  case (Cons x xs')
  then show ?thesis by (simp add: render_def lead_def)
qed

lemma render_sep_join:
  assumes "a \<or> xs \<noteq> []" "ys \<noteq> []"
  shows "render a xs @ ''/'' @ join_with ''/'' ys = join_with ''/'' (lead a xs @ xs @ ys)"
proof (cases "lead a xs @ xs = []")
  case True
  then show ?thesis using assms by (simp add: lead_def split: if_splits)
next
  case False
  have "join_with ''/'' ((lead a xs @ xs) @ ys) =
        join_with ''/'' (lead a xs @ xs) @ ''/'' @ join_with ''/'' ys"
    by (rule join_with_append[OF False assms(2)])
  then show ?thesis using render_as_join[OF assms(1)] by simp
qed

lemma foldl_lead: "foldl (normalize_step al) [] (lead a xs) = []"
  by (simp add: lead_def)

lemma lead_no_sep: "\<forall>s \<in> set (lead a xs). CHR ''/'' \<notin> set s"
  by (simp add: lead_def)

lemma plain_no_sep: "plain s \<Longrightarrow> CHR ''/'' \<notin> set s"
  by (simp add: plain_def)

lemma render_hd:
  assumes "a \<or> xs \<noteq> []" "\<forall>s \<in> set xs. plain s"
  shows "render a xs \<noteq> [] \<and> (hd (render a xs) = CHR ''/'') = a"
proof (cases a)
  case True
  then show ?thesis by (simp add: render_def)
next
  case False
  then have "xs \<noteq> []" using assms by simp
  then show ?thesis using False hd_join[OF _ assms(2)] join_nonempty[OF _ assms(2)]
    by (simp add: render_def)
qed

lemma normalize_path_parts:
  assumes "J \<noteq> []" "(hd J = CHR ''/'') = a" "(last J = CHR ''/'') = t"
    and "normalizeString J (\<not> a) = p1"
  shows "normalize_path J =
    (let p2 = (if p1 = [] \<and> \<not> a then ''.'' else p1);
         p3 = (if p2 \<noteq> [] \<and> t then p2 @ ''/'' else p2)
     in if a then CHR ''/'' # p3 else p3)"
  using assms by (cases a) (simp_all add: normalize_path_def isPosixPathSeparator_def Let_def)

lemma path_join_nonempty:
  "x \<noteq> [] \<Longrightarrow> y \<noteq> [] \<Longrightarrow> path_join x y = normalize_path (x @ ''/'' @ y)"
  by (simp add: path_join_def)

lemma path_join_plain:
  assumes ax: "a \<or> xs \<noteq> []" and px: "\<forall>s \<in> set xs. plain s"
    and ny: "ys \<noteq> []" and py: "\<forall>s \<in> set ys. plain s"
  shows "path_join (render a xs) (join_with ''/'' ys) = render a (xs @ ys)"
proof -
  let ?J = "render a xs @ ''/'' @ join_with ''/'' ys"
  have rx: "render a xs \<noteq> []" "(hd (render a xs) = CHR ''/'') = a"
    using render_hd[OF ax px] by simp_all
  have jy: "join_with ''/'' ys \<noteq> []" by (rule join_nonempty[OF ny py])
  have J: "?J = join_with ''/'' (lead a xs @ xs @ ys)" by (rule render_sep_join[OF ax ny])
  have 1: "?J \<noteq> []" using rx by simp
  have 2: "(hd ?J = CHR ''/'') = a" using rx by (simp add: hd_append)
  have 3: "(last ?J = CHR ''/'') = False" using jy last_join[OF ny py] by simp
  have ws: "lead a xs @ xs @ ys \<noteq> []" using ny by simp
  have nosep: "\<forall>s \<in> set (lead a xs @ xs @ ys). CHR ''/'' \<notin> set s"
    using px py lead_no_sep[of a xs] by (auto dest: plain_no_sep)
  have "foldl (normalize_step (\<not> a)) [] (lead a xs @ xs @ ys) = rev (xs @ ys)"
    using px py by (simp add: foldl_lead foldl_plain)
  then have 4: "normalizeString ?J (\<not> a) = join_with ''/'' (xs @ ys)"
    unfolding J normalizeString_join[OF ws nosep] by simp
  have ne: "join_with ''/'' (xs @ ys) \<noteq> []"
    by (rule join_nonempty) (use ny px py in auto)
  show ?thesis
    unfolding path_join_nonempty[OF rx(1) jy] normalize_path_parts[OF 1 2 3 4]
    using ne by (simp add: render_def)
qed

lemma foldl_plain_dotdot:
  assumes "xs \<noteq> []" "\<forall>s \<in> set xs. plain s"
  shows "foldl (normalize_step al) [] (xs @ [''..'']) = rev (butlast xs)"
proof -
  obtain ys y where xs: "xs = ys @ [y]" using assms(1) by (metis rev_exhaust)
  then have "plain y" using assms(2) by simp
  then have "y \<noteq> ''..''" "y \<noteq> []" "y \<noteq> ''.''" by (simp_all add: plain_def)
  then show ?thesis using assms(2) xs by (simp add: foldl_plain)
qed

lemma path_join_dotdot:
  assumes nx: "xs \<noteq> []" and px: "\<forall>s \<in> set xs. plain s"
  shows "path_join (render a xs) ''..'' =
           (if \<not> a \<and> butlast xs = [] then ''.'' else render a (butlast xs))"
proof -
  let ?J = "render a xs @ ''/'' @ join_with ''/'' [''..'']"
  have ax: "a \<or> xs \<noteq> []" using nx by simp
  have rx: "render a xs \<noteq> []" "(hd (render a xs) = CHR ''/'') = a"
    using render_hd[OF ax px] by simp_all
  have J: "?J = join_with ''/'' (lead a xs @ xs @ [''..''])"
    by (rule render_sep_join[OF ax]) simp
  have 1: "?J \<noteq> []" using rx by simp
  have 2: "(hd ?J = CHR ''/'') = a" using rx by (simp add: hd_append)
  have 3: "(last ?J = CHR ''/'') = False" by simp
  have ws: "lead a xs @ xs @ [''..''] \<noteq> []" by simp
  have nosep: "\<forall>s \<in> set (lead a xs @ xs @ [''..'']). CHR ''/'' \<notin> set s"
    using px lead_no_sep[of a xs] by (auto dest: plain_no_sep)
  have "foldl (normalize_step (\<not> a)) [] (lead a xs @ xs @ [''..'']) = rev (butlast xs)"
    using foldl_plain_dotdot[OF nx px] by (simp add: foldl_lead)
  then have 4: "normalizeString ?J (\<not> a) = join_with ''/'' (butlast xs)"
    unfolding J normalizeString_join[OF ws nosep] by simp
  have pb: "\<forall>s \<in> set (butlast xs). plain s" using px by (auto dest: in_set_butlastD)
  have e: "(join_with ''/'' (butlast xs) = []) = (butlast xs = [])"
    using join_nonempty[OF _ pb] by auto
  have "path_join (render a xs) ''..'' = normalize_path ?J"
    using path_join_nonempty[OF rx(1), of "''..''"] by simp
  then show ?thesis
    unfolding normalize_path_parts[OF 1 2 3 4]
    using e by (auto simp: render_def)
qed

lemma path_join_dot:
  assumes ny: "ys \<noteq> []" and py: "\<forall>s \<in> set ys. plain s"
  shows "path_join ''.'' (join_with ''/'' ys) = join_with ''/'' ys"
proof -
  let ?J = "''.'' @ ''/'' @ join_with ''/'' ys"
  have jy: "join_with ''/'' ys \<noteq> []" by (rule join_nonempty[OF ny py])
  have J: "?J = join_with ''/'' (''.'' # ys)" using ny by (cases ys) simp_all
  have 1: "?J \<noteq> []" by simp
  have 2: "(hd ?J = CHR ''/'') = False" by simp
  have 3: "(last ?J = CHR ''/'') = False" using jy last_join[OF ny py] by simp
  have ws: "''.'' # ys \<noteq> []" by simp
  have nosep: "\<forall>s \<in> set (''.'' # ys). CHR ''/'' \<notin> set s"
    using py by (auto dest: plain_no_sep)
  have "foldl (normalize_step (\<not> False)) [] (''.'' # ys) = rev ys"
    using py by (simp add: foldl_plain)
  then have 4: "normalizeString ?J (\<not> False) = join_with ''/'' ys"
    unfolding J normalizeString_join[OF ws nosep] by simp
  have "path_join ''.'' (join_with ''/'' ys) = normalize_path ?J"
    using path_join_nonempty[OF _ jy, of "''.''"] by simp
  then show ?thesis
    unfolding normalize_path_parts[OF 1 2 3 4] using jy by simp
qed

section \<open>The last segment of a path and its extension\<close>

lemma strip_trailing_id: "s \<noteq> [] \<Longrightarrow> last s \<noteq> CHR ''/'' \<Longrightarrow> strip_trailing s = s"
  by (cases s rule: rev_cases) (simp_all add: strip_trailing_def isPosixPathSeparator_def)

lemma strip_trailing_no_sep:
  assumes "CHR ''/'' \<notin> set s"
  shows "strip_trailing s = s"
proof (cases "s = []")
  case True
  then show ?thesis by (simp add: strip_trailing_def)
next
  case False
  then have "last s \<in> set s" by simp
  then have "last s \<noteq> CHR ''/''" using assms by auto
  then show ?thesis using False by (simp add: strip_trailing_id)
qed

lemma stripTrailingSeparators_no_sep:
  "CHR ''/'' \<notin> set s \<Longrightarrow> stripTrailingSeparators s = s"
  by (cases s) (simp_all add: stripTrailingSeparators_def strip_trailing_no_sep)

lemma takeWhile_last_segment:
  assumes "CHR ''/'' \<notin> set f" "pre = [] \<or> last pre = CHR ''/''"
  shows "rev (takeWhile (\<lambda>c. \<not> isPosixPathSeparator c) (rev (pre @ f))) = f"
proof -
  have a: "\<forall>c \<in> set (rev f). \<not> isPosixPathSeparator c"
    using assms(1) by (auto simp: isPosixPathSeparator_def)
  have "takeWhile (\<lambda>c. \<not> isPosixPathSeparator c) (rev f @ rev pre) = rev f"
  proof (cases pre rule: rev_cases)
    case Nil
    then show ?thesis using a by simp
  next
    case (snoc ys y)
    then have "y = CHR ''/''" using assms(2) by simp
    then show ?thesis using a snoc by (simp add: takeWhile_append2 isPosixPathSeparator_def takeWhile_tail)
  qed
  then show ?thesis by simp
qed

lemma lastPathSegment_file:
  assumes "f \<noteq> []" "CHR ''/'' \<notin> set f" "pre = [] \<or> last pre = CHR ''/''"
  shows "lastPathSegment (pre @ f) = f" "strip_trailing (pre @ f) = pre @ f"
proof -
  have "last f \<in> set f" using assms(1) by simp
  then have "last f \<noteq> CHR ''/''" using assms(2) by auto
  then have l: "last (pre @ f) \<noteq> CHR ''/''" using assms(1) by simp
  show st: "strip_trailing (pre @ f) = pre @ f"
    by (rule strip_trailing_id) (use assms(1) l in auto)
  show "lastPathSegment (pre @ f) = f"
    unfolding lastPathSegment_def st
    using assms(1) takeWhile_last_segment[OF assms(2,3)] by simp
qed

lemma basename_file:
  assumes "f \<noteq> []" "CHR ''/'' \<notin> set f" "pre = [] \<or> last pre = CHR ''/''"
  shows "basename (pre @ f) [] = f"
  using assms lastPathSegment_file(1)[OF assms]
  by (simp add: basename_def stripTrailingSeparators_no_sep)

lemma takeWhile_stop: "\<forall>x \<in> set xs. P x \<Longrightarrow> \<not> P y \<Longrightarrow> takeWhile P (xs @ y # ys) = xs"
  by (induction xs) auto

lemma extname_file:
  assumes "stem \<noteq> []" "stem \<noteq> ''.''" "CHR ''/'' \<notin> set stem"
    and "CHR ''/'' \<notin> set ext" "CHR ''.'' \<notin> set ext"
    and "pre = [] \<or> last pre = CHR ''/''"
  shows "extname (pre @ stem @ ''.'' @ ext) = ''.'' @ ext"
proof -
  let ?f = "stem @ CHR ''.'' # ext"
  have f: "?f \<noteq> []" "CHR ''/'' \<notin> set ?f" using assms by auto
  have seg: "lastPathSegment (pre @ ?f) = ?f" "strip_trailing (pre @ ?f) = pre @ ?f"
    using lastPathSegment_file[OF f assms(6)] by simp_all
  have "\<forall>x \<in> set (rev ext). x \<noteq> CHR ''.''" using assms(5) by auto
  then have tw: "takeWhile (\<lambda>c. c \<noteq> CHR ''.'') (rev ext @ CHR ''.'' # rev stem) = rev ext"
    by (simp add: takeWhile_stop)
  have dd: "?f \<noteq> ''..''"
  proof
    assume e: "?f = ''..''"
    then have "length ?f = 2" by simp
    then have "length stem + length ext = 1" by simp
    then have "ext = []" using assms(1) by (cases ext; cases stem) simp_all
    then have "stem = ''.''" using e by simp
    then show False using assms(2) by simp
  qed
  have "extname (pre @ ?f) = CHR ''.'' # ext"
    unfolding extname_def seg Let_def
    using assms(1) dd by (simp add: tw)
  then show ?thesis by simp
qed

lemma basename_stem:
  assumes "stem \<noteq> []" "CHR ''/'' \<notin> set stem" "CHR ''/'' \<notin> set ext"
    and "pre = [] \<or> last pre = CHR ''/''"
  shows "basename (pre @ stem @ ''.'' @ ext) (''.'' @ ext) = stem"
proof -
  let ?f = "stem @ CHR ''.'' # ext"
  have f: "?f \<noteq> []" "CHR ''/'' \<notin> set ?f" using assms by auto
  have seg: "lastPathSegment (pre @ ?f) = ?f"
    using lastPathSegment_file[OF f assms(4)] by simp
  have st: "stripTrailingSeparators ?f = ?f"
    by (rule stripTrailingSeparators_no_sep[OF f(2)])
  have "basename (pre @ ?f) (CHR ''.'' # ext) = stem"
    unfolding basename_def Let_def seg st
    using assms(1) by (simp add: stripSuffix_def)
  then show ?thesis by simp
qed

section \<open>Extraction\<close>

lemma extractEntries_extractAll:
  "extractEntries io r root entries w = extractAll io r root entries w"
proof (induction entries arbitrary: w)
  case Nil
  show ?case by simp
next
  case (Cons e es)
  have ih: "(\<lambda>w'. extractEntries io r root es w') = extractAll io r root es"
    using Cons.IH by auto
  show ?case
  proof (cases "d_isDirectory e")
    case True
    then show ?thesis
      by (simp add: entry_ops_def bindS_def liftE_def ih split: prod.splits sum.splits)
  next
    case False
    show ?thesis
    proof (cases "readEntry r (d_name e)")
      case (Inl err)
      then show ?thesis using False by (simp add: entry_ops_def bindS_def liftE_def)
    next
      case (Inr content)
      then show ?thesis using False
        by (simp add: entry_ops_def bindS_def liftE_def ih Let_def split: prod.splits sum.splits)
    qed
  qed
qed

















section \<open>The walk over a directory tree\<close>

lemma write_all_append:
  "write_all (xs @ ys) b = bindE (write_all xs b) (write_all ys)"
proof (induction xs arbitrary: b)
  case Nil
  show ?case by simp
next
  case (Cons x xs)
  obtain p bs where x: "x = (p, bs)" by (cases x)
  show ?case using Cons.IH by (cases "addFile p bs b") (simp_all add: x)
qed

lemma walk_is_write_all:
  "addDirectoryToZip w entries basePath = write_all (tree_files entries basePath) w"
proof (induction w entries basePath rule: addDirectoryToZip.induct)
  case (1 zipWriter basePath)
  show ?case by simp
next
  case (2 zipWriter entryName content entries basePath)
  then show ?case
    by (cases "addFile (if basePath \<noteq> [] then basePath @ ''/'' @ entryName else entryName) content zipWriter")
       (simp_all add: Let_def)
next
  case (3 zipWriter entryName sub entries basePath)
  let ?rel = "if basePath \<noteq> [] then basePath @ ''/'' @ entryName else entryName"
  show ?case
  proof (cases "addDirectoryToZip zipWriter sub ?rel")
    case (Inl e)
    then show ?thesis using 3(1)[of ?rel] by (simp add: Let_def write_all_append)
  next
    case (Inr w')
    then show ?thesis using 3(1)[of ?rel] 3(2)[of ?rel w']
      by (simp add: Let_def write_all_append)
  qed
next
  case (4 zipWriter entryName entries basePath)
  then show ?case by simp
qed

lemma tree_files_remove_empty:
  "tree_files (remove_empty entries) basePath = tree_files entries basePath"
  by (induction entries arbitrary: basePath rule: remove_empty.induct) simp_all

lemma compressPath_buildArchive:
  "compressPath io fs inputPath w =
     bindS (liftE (buildArchive fs inputPath)) (\<lambda>zipData.
     bindS (writeFile io (inputPath @ ''.zip'') zipData) (\<lambda>_.
     liftE (Inr [''Created: '' @ inputPath @ ''.zip'']))) w"
  unfolding compressPath_def buildArchive_def Let_def bindS_def liftE_def
  by (auto split: sum.splits prod.splits node.splits)

lemma addEntry_pending:
  assumes "addEntry nm d bs b = Inr b'"
  shows "\<exists>m. pending b' = pending b @ [m] \<and> name m = nm \<and> isDirectory m = d"
  using assms by (auto simp: addEntry_def Let_def split: if_splits)

lemma write_all_pending:
  assumes "write_all pairs b = Inr b'"
  shows "\<exists>added. pending b' = pending b @ added \<and>
           map name added = map (\<lambda>(p, bs). toForwardSlashes p) pairs \<and>
           list_all (\<lambda>m. \<not> isDirectory m) added"
  using assms
proof (induction pairs arbitrary: b)
  case Nil
  then show ?case by simp
next
  case (Cons x pairs)
  obtain p bs where x: "x = (p, bs)" by (cases x)
  from Cons.prems obtain b1 where b1: "addFile p bs b = Inr b1" "write_all pairs b1 = Inr b'"
    by (auto simp: x dest: bindE_Inr)
  obtain m where m: "pending b1 = pending b @ [m]" "name m = toForwardSlashes p" "\<not> isDirectory m"
    using addEntry_pending[OF b1(1)[unfolded addFile_def]] by auto
  obtain added where a: "pending b' = pending b1 @ added"
    "map name added = map (\<lambda>(p, bs). toForwardSlashes p) pairs"
    "list_all (\<lambda>m. \<not> isDirectory m) added"
    using Cons.IH[OF b1(2)] by auto
  show ?case
    by (rule exI[of _ "m # added"]) (simp add: a m x)
qed

text \<open>
  Claim C8. The walk adds one member per file of the tree, none of them a directory entry,
  under the paths of the files. A listing and the same listing without its empty
  directories give the same archive, so nothing in the archive tells that an empty
  directory was there, and what is extracted from it is the same in both cases.
\<close>

theorem empty_directories_lost:
  "addDirectoryToZip w (remove_empty entries) basePath = addDirectoryToZip w entries basePath \<and>
   (addDirectoryToZip w entries basePath = Inr w' \<longrightarrow>
      (\<exists>added. pending w' = pending w @ added \<and>
         map name added = map (\<lambda>(p, bs). toForwardSlashes p) (tree_files entries basePath) \<and>
         list_all (\<lambda>m. \<not> isDirectory m) added)) \<and>
   (fs p = Some (Directory entries) \<and> fs' p = Some (Directory (remove_empty entries)) \<longrightarrow>
      compressPath io fs' p = compressPath io fs p)"
proof (intro conjI impI)
  show 1: "addDirectoryToZip w (remove_empty entries) basePath = addDirectoryToZip w entries basePath"
    by (simp add: walk_is_write_all tree_files_remove_empty)
  show "\<exists>added. pending w' = pending w @ added \<and>
         map name added = map (\<lambda>(p, bs). toForwardSlashes p) (tree_files entries basePath) \<and>
         list_all (\<lambda>m. \<not> isDirectory m) added"
    if "addDirectoryToZip w entries basePath = Inr w'"
    using that write_all_pending[of "tree_files entries basePath" w w']
    by (simp add: walk_is_write_all)
  show "compressPath io fs' p = compressPath io fs p"
    if "fs p = Some (Directory entries) \<and> fs' p = Some (Directory (remove_empty entries))"
  proof -
    have "buildArchive fs' p = buildArchive fs p"
      using that by (simp add: buildArchive_def stat_def walk_is_write_all tree_files_remove_empty)
    then show ?thesis
      by (intro ext) (simp add: compressPath_buildArchive)
  qed
qed

theorem empty_directories_lost_witness:
  "remove_empty [(''a.txt'', File [0x41]), (''empty'', Directory []),
                 (''sub'', Directory [(''deep'', Directory [])])] =
     [(''a.txt'', File [0x41]), (''sub'', Directory [])] \<and>
   addDirectoryToZip begin_archive
     [(''a.txt'', File [0x41]), (''empty'', Directory []),
      (''sub'', Directory [(''deep'', Directory [])])] [] =
     addFile ''a.txt'' [0x41] begin_archive \<and>
   addDirectoryToZip begin_archive
     [(''a.txt'', File [0x41]), (''empty'', Directory []),
      (''sub'', Directory [(''deep'', Directory [])])] [] =
     Inr (projr (addFile ''a.txt'' [0x41] begin_archive)) \<and>
   (\<exists>added. pending (projr (addFile ''a.txt'' [0x41] begin_archive)) = pending begin_archive @ added \<and>
      map name added = [''a.txt''] \<and> list_all (\<lambda>m. \<not> isDirectory m) added) \<and>
   compressPath recording
     (\<lambda>p. if p = ''d'' then Some (Directory [(''a.txt'', File [0x41]), (''sub'', Directory [])])
           else None) ''d'' =
   compressPath recording
     (\<lambda>p. if p = ''d'' then Some (Directory [(''a.txt'', File [0x41]), (''empty'', Directory []),
                 (''sub'', Directory [(''deep'', Directory [])])])
           else None) ''d''"
proof -
  let ?E = "[(''a.txt'', File [0x41]), (''empty'', Directory []),
             (''sub'', Directory [(''deep'', Directory [])])]"
  let ?fs = "\<lambda>p. if p = ''d'' then Some (Directory ?E) else None"
  let ?fs' = "\<lambda>p. if p = ''d'' then Some (Directory [(''a.txt'', File [0x41]), (''sub'', Directory [])])
           else None"
  let ?b = "projr (addFile ''a.txt'' [0x41] begin_archive)"
  have r: "remove_empty ?E = [(''a.txt'', File [0x41]), (''sub'', Directory [])]" by simp
  have a: "addFile ''a.txt'' [0x41] begin_archive = Inr ?b"
    by (simp add: addFile_def addEntry_def begin_archive_def toForwardSlashes_def
        isAbsolutePath_def hasDotDotSegment_def Let_def)
  have w: "addDirectoryToZip begin_archive ?E [] = addFile ''a.txt'' [0x41] begin_archive"
    by (cases "addFile ''a.txt'' [0x41] begin_archive") simp_all
  have w': "addDirectoryToZip begin_archive ?E [] = Inr ?b" using w a by simp
  show ?thesis
    using r w w'
      empty_directories_lost[of begin_archive ?E "[]" ?b ?fs "''d''" ?fs' recording]
    by (simp add: toForwardSlashes_def)
qed

section \<open>Compressing a single file\<close>

lemma basename_shape:
  assumes "p \<noteq> []"
  shows "basename p [] = ''/'' \<or>
         (CHR ''/'' \<notin> set (basename p []) \<and>
          (\<exists>dir trail. p = dir @ basename p [] @ trail \<and>
             (dir = [] \<or> last dir = CHR ''/'') \<and> set trail \<subseteq> {CHR ''/''}))"
proof (cases "strip_trailing p = []")
  case True
  then have all: "\<forall>c \<in> set p. c = CHR ''/''"
    unfolding strip_trailing_def
    by (metis dropWhile_eq_Nil_conv isPosixPathSeparator_def rev_is_Nil_conv set_rev)
  obtain c cs where p: "p = c # cs" using assms by (cases p) auto
  then have c: "c = CHR ''/''" using all by simp
  have "strip_trailing cs = []"
    unfolding strip_trailing_def using all p
    by (simp add: isPosixPathSeparator_def dropWhile_eq_Nil_conv)
  then have "basename p [] = ''/''"
    using True assms p c
    by (cases cs) (simp_all add: basename_def lastPathSegment_def stripTrailingSeparators_def)
  then show ?thesis by simp
next
  case False
  define sp where "sp = strip_trailing p"
  define trail where "trail = rev (takeWhile isPosixPathSeparator (rev p))"
  define nm where "nm = rev (takeWhile (\<lambda>c. \<not> isPosixPathSeparator c) (rev sp))"
  define dir where "dir = rev (dropWhile (\<lambda>c. \<not> isPosixPathSeparator c) (rev sp))"
  have "rev p = takeWhile isPosixPathSeparator (rev p) @ dropWhile isPosixPathSeparator (rev p)"
    by simp
  then have "rev (rev p) = rev (takeWhile isPosixPathSeparator (rev p) @ dropWhile isPosixPathSeparator (rev p))"
    by simp
  then have p1: "p = sp @ trail"
    by (simp add: sp_def trail_def strip_trailing_def del: takeWhile_dropWhile_id)
  have "rev sp = takeWhile (\<lambda>c. \<not> isPosixPathSeparator c) (rev sp) @
                 dropWhile (\<lambda>c. \<not> isPosixPathSeparator c) (rev sp)"
    by simp
  then have "rev (rev sp) = rev (takeWhile (\<lambda>c. \<not> isPosixPathSeparator c) (rev sp) @
                 dropWhile (\<lambda>c. \<not> isPosixPathSeparator c) (rev sp))"
    by simp
  then have p2: "sp = dir @ nm"
    by (simp add: dir_def nm_def del: takeWhile_dropWhile_id)
  have tr: "set trail \<subseteq> {CHR ''/''}"
    unfolding trail_def by (auto dest: set_takeWhileD simp: isPosixPathSeparator_def)
  have ns: "CHR ''/'' \<notin> set nm"
    unfolding nm_def by (auto dest: set_takeWhileD simp: isPosixPathSeparator_def)
  have dl: "dir = [] \<or> last dir = CHR ''/''"
  proof (cases "dropWhile (\<lambda>c. \<not> isPosixPathSeparator c) (rev sp)")
    case Nil
    then show ?thesis by (simp add: dir_def)
  next
    case (Cons y ys)
    then have "\<not> \<not> isPosixPathSeparator y" using hd_dropWhile[of "\<lambda>c. \<not> isPosixPathSeparator c" "rev sp"] by simp
    then show ?thesis using Cons by (simp add: dir_def isPosixPathSeparator_def)
  qed
  have base: "basename p [] = nm"
    using assms False ns
    by (simp add: basename_def lastPathSegment_def nm_def sp_def stripTrailingSeparators_no_sep)
  show ?thesis
    unfolding base using ns tr dl p1 p2 by auto
qed

lemma addEntry_first:
  assumes "\<not> isAbsolutePath nm" "\<not> hasDotDotSegment nm"
  shows "addEntry nm False content begin_archive =
     Inr \<lparr>buffer = encodeLocalHeader \<lparr>name = nm, isDirectory = False,
                 uncompressedSize = of_nat (length content),
                 compressedSize = of_nat (length content),
                 crc = crc32 content, localHeaderOffset = 0\<rparr> @ content,
          pending = [\<lparr>name = nm, isDirectory = False,
                 uncompressedSize = of_nat (length content),
                 compressedSize = of_nat (length content),
                 crc = crc32 content, localHeaderOffset = 0\<rparr>],
          sealed = False\<rparr>"
  using assms by (simp add: addEntry_def begin_archive_def Let_def writeBytes_def)

text \<open>
  Claim C10. Compressing a path that is a file, whose last segment is a valid member name
  of a size the format can hold, writes one archive to \<open>path.zip\<close>. The archive lists
  exactly one entry, a file named by the last segment of the path: the path is some
  directory part (empty or ending in a separator), the name, and trailing separators,
  and the name has no separator. Reading the entry returns the bytes of the file.
\<close>

theorem single_file_archive:
  assumes f: "fs p = Some (File content)"
    and v: "valid_name (basename p [])"
    and sz: "fits [(basename p [], content)]"
  shows "\<exists>zipData r.
     compressPath io fs p w =
       bindS (writeFile io (p @ ''.zip'') zipData)
         (\<lambda>_. liftE (Inr [''Created: '' @ p @ ''.zip''])) w \<and>
     open_archive zipData = Inr r \<and>
     listEntries r = [\<lparr>d_name = basename p [], d_isDirectory = False,
                       d_uncompressedSize = of_nat (length content),
                       d_crc32 = crc32 content\<rparr>] \<and>
     readEntry r (basename p []) = Inr content \<and>
     CHR ''/'' \<notin> set (basename p []) \<and>
     (\<exists>dir trail. p = dir @ basename p [] @ trail \<and>
        (dir = [] \<or> last dir = CHR ''/'') \<and> set trail \<subseteq> {CHR ''/''})"
proof -
  let ?n = "basename p []"
  let ?m = "\<lparr>name = ?n, isDirectory = False, uncompressedSize = of_nat (length content),
             compressedSize = of_nat (length content), crc = crc32 content,
             localHeaderOffset = 0\<rparr>"
  let ?b = "\<lparr>buffer = encodeLocalHeader ?m @ content, pending = [?m], sealed = False\<rparr>"
  have va: "\<not> isAbsolutePath ?n" "\<not> hasDotDotSegment ?n" "toForwardSlashes ?n = ?n"
    using v by (simp_all add: valid_name_def toForwardSlashes_id)
  have add: "addFile ?n content begin_archive = Inr ?b"
    unfolding addFile_def va(3) by (rule addEntry_first[OF va(1,2)])
  obtain b where b: "write_all [(?n, content)] begin_archive = Inr b" "built b [(?n, content)]"
    using write_all_begin[of "[(?n, content)]"] v sz by auto
  have bb: "b = ?b" using b(1) add by simp
  have ba: "buildArchive fs p = Inr (fst (finalize ?b))"
    using f add by (simp add: buildArchive_def stat_def readFile_def)
  have 1: "compressPath io fs p w =
       bindS (writeFile io (p @ ''.zip'') (fst (finalize ?b)))
         (\<lambda>_. liftE (Inr [''Created: '' @ p @ ''.zip''])) w"
    by (simp add: compressPath_buildArchive ba bindS_def liftE_def)
  have 2: "open_archive (fst (finalize ?b)) = Inr \<lparr>bytes = fst (finalize ?b), members = pending ?b\<rparr>"
    using open_built[OF b(2) sz] unfolding bb .
  have 3: "listEntries \<lparr>bytes = fst (finalize ?b), members = pending ?b\<rparr> =
      [\<lparr>d_name = ?n, d_isDirectory = False, d_uncompressedSize = of_nat (length content),
        d_crc32 = crc32 content\<rparr>]"
    by (simp add: listEntries_def describe_def)
  have 4: "readEntry \<lparr>bytes = fst (finalize ?b), members = pending ?b\<rparr> ?n = Inr content"
    using readEntry_built[OF b(2) sz, of ?n content] unfolding bb by simp
  have 5: "CHR ''/'' \<notin> set ?n \<and>
     (\<exists>dir trail. p = dir @ ?n @ trail \<and>
        (dir = [] \<or> last dir = CHR ''/'') \<and> set trail \<subseteq> {CHR ''/''})"
  proof (cases "p = []")
    case True
    then show ?thesis by (simp add: basename_def)
  next
    case False
    have "?n \<noteq> ''/''" using va(1) by (auto simp: isAbsolutePath_def)
    then show ?thesis using basename_shape[OF False] by blast
  qed
  show ?thesis using 1 2 3 4 5 by blast
qed

theorem single_file_archive_witness:
  "(\<lambda>p. if p = ''docs/README.md'' then Some (File [0x41, 0x42]) else None) ''docs/README.md''
     = Some (File [0x41, 0x42]) \<and>
   valid_name (basename ''docs/README.md'' []) \<and>
   fits [(basename ''docs/README.md'' [], [0x41, 0x42 :: byte])] \<and>
   basename ''docs/README.md'' [] = ''README.md'' \<and>
   (\<exists>zipData r.
     compressPath recording (\<lambda>p. if p = ''docs/README.md'' then Some (File [0x41, 0x42]) else None)
       ''docs/README.md'' [] =
       (Inr [''Created: docs/README.md.zip''], [WriteFile ''docs/README.md.zip'' zipData]) \<and>
     open_archive zipData = Inr r \<and>
     listEntries r = [\<lparr>d_name = ''README.md'', d_isDirectory = False,
                       d_uncompressedSize = 2, d_crc32 = crc32 [0x41, 0x42]\<rparr>] \<and>
     readEntry r ''README.md'' = Inr [0x41, 0x42])"
proof -
  let ?fs = "\<lambda>p. if p = ''docs/README.md'' then Some (File [0x41, 0x42 :: byte]) else None"
  have bn: "basename ''docs/README.md'' [] = ''README.md''"
    by (simp add: basename_def lastPathSegment_def strip_trailing_def
        stripTrailingSeparators_def isPosixPathSeparator_def)
  have f: "?fs ''docs/README.md'' = Some (File [0x41, 0x42])" by simp
  have v: "valid_name (basename ''docs/README.md'' [])"
    unfolding bn by (simp add: valid_name_def isAbsolutePath_def hasDotDotSegment_def)
  have sz: "fits [(basename ''docs/README.md'' [], [0x41, 0x42 :: byte])]"
    unfolding bn by (simp add: fits_def archive_size_def local_size_def central_size_def)
  show ?thesis
    using v sz bn
      single_file_archive[of ?fs "''docs/README.md''" "[0x41, 0x42]" recording "[]", OF f v sz]
    by (auto simp: bindS_def liftE_def recording_def)
qed

section \<open>The command line\<close>

lemma render_snoc:
  "render a (dirs @ [f]) =
     (if dirs = [] then (if a then ''/'' else []) else render a dirs @ ''/'') @ f"
  by (simp add: render_def join_with_snoc)

lemma output_dir_plain:
  fixes a :: bool
  assumes pd: "\<forall>s \<in> set dirs. plain s" and ps: "plain stem"
    and e1: "CHR ''/'' \<notin> set ext" and e2: "CHR ''.'' \<notin> set ext"
  defines "zipPath \<equiv> render a (dirs @ [stem @ ''.'' @ ext])"
  shows "path_join (path_join zipPath ''..'') (basename zipPath (extname zipPath)) =
           render a (dirs @ [stem])"
proof -
  let ?f = "stem @ ''.'' @ ext"
  let ?pre = "(if dirs = [] then (if a then ''/'' else []) else render a dirs @ ''/'')"
  have zp: "zipPath = ?pre @ stem @ ''.'' @ ext"
    unfolding zipPath_def render_snoc by simp
  have pre: "?pre = [] \<or> last ?pre = CHR ''/''" by simp
  have s: "stem \<noteq> []" "stem \<noteq> ''.''" "CHR ''/'' \<notin> set stem"
    using ps by (simp_all add: plain_def)
  have ext: "extname zipPath = ''.'' @ ext"
    unfolding zp by (rule extname_file[OF s e1 e2 pre])
  have base: "basename zipPath (extname zipPath) = stem"
    unfolding ext unfolding zp by (rule basename_stem[OF s(1,3) e1 pre])
  have pf: "plain ?f"
  proof -
    have "?f \<noteq> ''.''" using s(1) by (cases stem) auto
    moreover have "?f \<noteq> ''..''"
    proof
      assume e: "?f = ''..''"
      then have "length ?f = 2" by simp
      then have "length stem + length ext = 1" by simp
      then have "ext = []" using s(1) by (cases ext; cases stem) simp_all
      then have "stem = ''.''" using e by simp
      then show False using s(2) by simp
    qed
    ultimately show ?thesis using s e1 by (simp add: plain_def)
  qed
  have pall: "\<forall>s \<in> set (dirs @ [?f]). plain s" using pd pf by simp
  have up: "path_join zipPath ''..'' =
      (if \<not> a \<and> dirs = [] then ''.'' else render a dirs)"
    unfolding zipPath_def using path_join_dotdot[OF _ pall, of a] by simp
  have st: "stem = join_with ''/'' [stem]" by simp
  show ?thesis
  proof (cases "\<not> a \<and> dirs = []")
    case True
    have "path_join ''.'' (join_with ''/'' [stem]) = join_with ''/'' [stem]"
      by (rule path_join_dot) (use ps in simp_all)
    then show ?thesis unfolding base up using True by (simp add: render_def)
  next
    case False
    have "path_join (render a dirs) (join_with ''/'' [stem]) = render a (dirs @ [stem])"
      by (rule path_join_plain) (use False pd ps in auto)
    then show ?thesis unfolding base up using False by auto
  qed
qed

lemma decompressZip_extractAll:
  "decompressZip io fs zipPath =
     bindS (liftE (readFile fs zipPath)) (\<lambda>zipData.
     bindS (liftE (open_archive zipData)) (\<lambda>zipReader.
     bindS (extractAll io zipReader
              (path_join (path_join zipPath ''..'') (basename zipPath (extname zipPath)))
              (listEntries zipReader)) (\<lambda>_.
     liftE (Inr [''Extracted to: '' @
                 path_join (path_join zipPath ''..'') (basename zipPath (extname zipPath)) @
                 ''/'']))))"
proof -
  have e: "extractEntries io r root entries = extractAll io r root entries" for r root entries
    by (intro ext) (rule extractEntries_extractAll)
  show ?thesis by (simp add: decompressZip_def Let_def e)
qed

text \<open>
  Claim C5. With \<open>-c PATH\<close> the program builds the archive of \<open>PATH\<close> and writes
  it to \<open>PATH.zip\<close>. With \<open>-d PATH\<close> it reads the archive at \<open>PATH\<close> and extracts
  its entries under the parent of \<open>PATH\<close> joined with the name of \<open>PATH\<close> less its
  extension; for an archive \<open>dir/stem.ext\<close> of plain segments that is \<open>dir/stem\<close>,
  next to the archive.
\<close>

theorem command_line_output_locations:
  "(args \<noteq> [] \<and> parseArgs args = Inr vs \<and> v_help vs \<noteq> Some True \<and>
    v_compress vs = Some p \<and> p \<noteq> [] \<longrightarrow>
      main parseArgs io fs args w =
        finish (bindS (liftE (buildArchive fs p)) (\<lambda>zipData.
                bindS (writeFile io (p @ ''.zip'') zipData) (\<lambda>_.
                liftE (Inr [''Created: '' @ p @ ''.zip''])))) w) \<and>
   (args \<noteq> [] \<and> parseArgs args = Inr vs \<and> v_help vs \<noteq> Some True \<and>
    \<not> selected (v_compress vs) \<and> v_decompress vs = Some p \<and> p \<noteq> [] \<longrightarrow>
      main parseArgs io fs args w =
        finish (bindS (liftE (readFile fs p)) (\<lambda>zipData.
                bindS (liftE (open_archive zipData)) (\<lambda>zipReader.
                bindS (extractAll io zipReader
                         (path_join (path_join p ''..'') (basename p (extname p)))
                         (listEntries zipReader)) (\<lambda>_.
                liftE (Inr [''Extracted to: '' @
                            path_join (path_join p ''..'') (basename p (extname p)) @
                            ''/'']))))) w) \<and>
   (list_all plain dirs \<and> plain stem \<and> CHR ''/'' \<notin> set ext \<and> CHR ''.'' \<notin> set ext \<longrightarrow>
      path_join (path_join (render a (dirs @ [stem @ ''.'' @ ext])) ''..'')
        (basename (render a (dirs @ [stem @ ''.'' @ ext]))
           (extname (render a (dirs @ [stem @ ''.'' @ ext])))) =
      render a (dirs @ [stem]))"
proof (intro conjI impI)
  assume "args \<noteq> [] \<and> parseArgs args = Inr vs \<and> v_help vs \<noteq> Some True \<and>
    v_compress vs = Some p \<and> p \<noteq> []"
  then have "main parseArgs io fs args w = finish (compressPath io fs p) w"
    by (simp add: main_def selected_def)
  moreover have "compressPath io fs p =
      bindS (liftE (buildArchive fs p)) (\<lambda>zipData.
        bindS (writeFile io (p @ ''.zip'') zipData) (\<lambda>_.
        liftE (Inr [''Created: '' @ p @ ''.zip''])))"
    by (intro ext) (rule compressPath_buildArchive)
  ultimately show "main parseArgs io fs args w =
        finish (bindS (liftE (buildArchive fs p)) (\<lambda>zipData.
                bindS (writeFile io (p @ ''.zip'') zipData) (\<lambda>_.
                liftE (Inr [''Created: '' @ p @ ''.zip''])))) w"
    by simp
next
  assume "args \<noteq> [] \<and> parseArgs args = Inr vs \<and> v_help vs \<noteq> Some True \<and>
    \<not> selected (v_compress vs) \<and> v_decompress vs = Some p \<and> p \<noteq> []"
  then have "main parseArgs io fs args w = finish (decompressZip io fs p) w"
    by (simp add: main_def selected_def)
  then show "main parseArgs io fs args w =
        finish (bindS (liftE (readFile fs p)) (\<lambda>zipData.
                bindS (liftE (open_archive zipData)) (\<lambda>zipReader.
                bindS (extractAll io zipReader
                         (path_join (path_join p ''..'') (basename p (extname p)))
                         (listEntries zipReader)) (\<lambda>_.
                liftE (Inr [''Extracted to: '' @
                            path_join (path_join p ''..'') (basename p (extname p)) @
                            ''/'']))))) w"
    by (simp add: decompressZip_extractAll)
next
  assume "list_all plain dirs \<and> plain stem \<and> CHR ''/'' \<notin> set ext \<and> CHR ''.'' \<notin> set ext"
  then show "path_join (path_join (render a (dirs @ [stem @ ''.'' @ ext])) ''..'')
        (basename (render a (dirs @ [stem @ ''.'' @ ext]))
           (extname (render a (dirs @ [stem @ ''.'' @ ext])))) =
      render a (dirs @ [stem])"
    using output_dir_plain[of dirs stem ext a] by (simp add: list_all_iff)
qed

lemma fits_empty: "fits []"
  by (simp add: fits_def archive_size_def local_size_def central_size_def)

lemma open_empty_archive:
  "open_archive (fst (finalize begin_archive)) =
     Inr \<lparr>bytes = fst (finalize begin_archive), members = []\<rparr>"
  using open_built[OF built_begin fits_empty] by (simp add: begin_archive_def)

theorem command_line_output_locations_witness:
  "main (\<lambda>_. Inr \<lparr>v_compress = Some ''x'', v_decompress = None, v_list = None, v_help = None\<rparr>)
     recording (\<lambda>p. if p = ''x'' then Some Other else None) [''-c'', ''x''] [] =
     (\<lparr>shown = [Log [''Created: x.zip'']], exitCode = 0\<rparr>,
      [WriteFile ''x.zip'' (fst (finalize begin_archive))]) \<and>
   main (\<lambda>_. Inr \<lparr>v_compress = None, v_decompress = Some ''a/b/tmp.zip'', v_list = None, v_help = None\<rparr>)
     recording (\<lambda>p. if p = ''a/b/tmp.zip'' then Some (File (fst (finalize begin_archive))) else None)
     [''-d'', ''a/b/tmp.zip''] [] =
     (\<lparr>shown = [Log [''Extracted to: a/b/tmp/'']], exitCode = 0\<rparr>, []) \<and>
   path_join (path_join ''a/b/tmp.zip'' ''..'') (basename ''a/b/tmp.zip'' (extname ''a/b/tmp.zip''))
     = ''a/b/tmp''"
proof -
  let ?vc = "\<lparr>v_compress = Some ''x'', v_decompress = None, v_list = None, v_help = None\<rparr>"
  let ?vd = "\<lparr>v_compress = None, v_decompress = Some ''a/b/tmp.zip'', v_list = None, v_help = None\<rparr>"
  let ?fc = "\<lambda>p. if p = ''x'' then Some Other else None"
  let ?fd = "\<lambda>p. if p = ''a/b/tmp.zip'' then Some (File (fst (finalize begin_archive))) else None"
  have p: "path_join (path_join ''a/b/tmp.zip'' ''..'')
             (basename ''a/b/tmp.zip'' (extname ''a/b/tmp.zip'')) = ''a/b/tmp''"
    using command_line_output_locations[of "[]" "\<lambda>_. Inr ?vc" ?vc "[]" recording ?fc "[]"
        "[''a'', ''b'']" "''tmp''" "''zip''" False]
    by (simp add: plain_def render_def)
  have c: "main (\<lambda>_. Inr ?vc) recording ?fc [''-c'', ''x''] [] =
     (\<lparr>shown = [Log [''Created: x.zip'']], exitCode = 0\<rparr>,
      [WriteFile ''x.zip'' (fst (finalize begin_archive))])"
    using command_line_output_locations[of "[''-c'', ''x'']" "\<lambda>_. Inr ?vc" ?vc "''x''" recording ?fc "[]"]
    by (simp add: finish_def bindS_def liftE_def buildArchive_def stat_def recording_def)
  have d: "main (\<lambda>_. Inr ?vd) recording ?fd [''-d'', ''a/b/tmp.zip''] [] =
     (\<lparr>shown = [Log [''Extracted to: a/b/tmp/'']], exitCode = 0\<rparr>, [])"
    using command_line_output_locations[of "[''-d'', ''a/b/tmp.zip'']" "\<lambda>_. Inr ?vd" ?vd
        "''a/b/tmp.zip''" recording ?fd "[]"]
    by (simp add: finish_def bindS_def liftE_def readFile_def selected_def open_empty_archive
        listEntries_def p)
  show ?thesis using p c d by simp
qed

text \<open>
  Claim C9, amended. With no arguments the program shows the help text and exits with
  status 0. With arguments that the parser accepts and that give no help flag and no
  non-empty value for \<open>-c\<close>, \<open>-d\<close> or \<open>-l\<close>, it shows the help text and exits with
  status 1. When the selected operation fails, the failure is shown and the status is 1.
  When the parser rejects the arguments, \<open>main\<close> does not catch it: the process ends
  with that error uncaught and status 1, and the help text is not shown.
\<close>

theorem main_exit_status:
  "main parseArgs io fs [] w = (\<lparr>shown = [Log helpText], exitCode = 0\<rparr>, w) \<and>
   (args \<noteq> [] \<and> parseArgs args = Inr vs \<and> v_help vs \<noteq> Some True \<and>
    \<not> selected (v_compress vs) \<and> \<not> selected (v_decompress vs) \<and> \<not> selected (v_list vs)
    \<longrightarrow> main parseArgs io fs args w = (\<lparr>shown = [Log helpText], exitCode = 1\<rparr>, w)) \<and>
   (args \<noteq> [] \<and> parseArgs args = Inr vs \<and> v_help vs \<noteq> Some True \<and>
    v_compress vs = Some p \<and> p \<noteq> [] \<and> compressPath io fs p w = (Inl e, w')
    \<longrightarrow> main parseArgs io fs args w = (\<lparr>shown = [ErrorMessage e], exitCode = 1\<rparr>, w')) \<and>
   (args \<noteq> [] \<and> parseArgs args = Inr vs \<and> v_help vs \<noteq> Some True \<and>
    \<not> selected (v_compress vs) \<and>
    v_decompress vs = Some p \<and> p \<noteq> [] \<and> decompressZip io fs p w = (Inl e, w')
    \<longrightarrow> main parseArgs io fs args w = (\<lparr>shown = [ErrorMessage e], exitCode = 1\<rparr>, w')) \<and>
   (args \<noteq> [] \<and> parseArgs args = Inr vs \<and> v_help vs \<noteq> Some True \<and>
    \<not> selected (v_compress vs) \<and> \<not> selected (v_decompress vs) \<and>
    v_list vs = Some p \<and> p \<noteq> [] \<and> listZipContents fs p w = (Inl e, w')
    \<longrightarrow> main parseArgs io fs args w = (\<lparr>shown = [ErrorMessage e], exitCode = 1\<rparr>, w')) \<and>
   (args \<noteq> [] \<and> parseArgs args = Inl e
    \<longrightarrow> main parseArgs io fs args w = (\<lparr>shown = [Uncaught e], exitCode = 1\<rparr>, w))"
  by (simp add: main_def finish_def selected_def)

lemma compress_missing: "compressPath recording (\<lambda>_. None) ''x'' [] = (Inl NotFound, [])"
  by (simp add: compressPath_def bindS_def liftE_def stat_def)

lemma decompress_missing: "decompressZip recording (\<lambda>_. None) ''x.zip'' [] = (Inl NotFound, [])"
  by (simp add: decompressZip_def bindS_def liftE_def readFile_def)

lemma list_missing: "listZipContents (\<lambda>_. None) ''x.zip'' ([] :: fs_op list) = (Inl NotFound, [])"
  by (simp add: listZipContents_def bindS_def liftE_def readFile_def)

theorem main_exit_status_witness:
  "main (\<lambda>_. Inr \<lparr>v_compress = Some [], v_decompress = None, v_list = None, v_help = None\<rparr>)
      recording (\<lambda>_. None) [] [] = (\<lparr>shown = [Log helpText], exitCode = 0\<rparr>, []) \<and>
   main (\<lambda>_. Inr \<lparr>v_compress = Some [], v_decompress = None, v_list = None, v_help = None\<rparr>)
      recording (\<lambda>_. None) [''-c'', []] [] = (\<lparr>shown = [Log helpText], exitCode = 1\<rparr>, []) \<and>
   main (\<lambda>_. Inr \<lparr>v_compress = Some ''x'', v_decompress = None, v_list = None, v_help = None\<rparr>)
      recording (\<lambda>_. None) [''-c'', ''x''] [] = (\<lparr>shown = [ErrorMessage NotFound], exitCode = 1\<rparr>, []) \<and>
   main (\<lambda>_. Inr \<lparr>v_compress = None, v_decompress = Some ''x.zip'', v_list = None, v_help = None\<rparr>)
      recording (\<lambda>_. None) [''-d'', ''x.zip''] [] = (\<lparr>shown = [ErrorMessage NotFound], exitCode = 1\<rparr>, []) \<and>
   main (\<lambda>_. Inr \<lparr>v_compress = None, v_decompress = None, v_list = Some ''x.zip'', v_help = None\<rparr>)
      recording (\<lambda>_. None) [''-l'', ''x.zip''] ([] :: fs_op list) = (\<lparr>shown = [ErrorMessage NotFound], exitCode = 1\<rparr>, []) \<and>
   main (\<lambda>_. Inl ParseArgsFailed) recording (\<lambda>_. None) [''--bogus''] ([] :: fs_op list) =
     (\<lparr>shown = [Uncaught ParseArgsFailed], exitCode = 1\<rparr>, [])"
  using
    main_exit_status[of "\<lambda>_. Inr \<lparr>v_compress = Some [], v_decompress = None, v_list = None, v_help = None\<rparr>"
      recording "\<lambda>_. None" "[]" "[''-c'', []]"
      "\<lparr>v_compress = Some [], v_decompress = None, v_list = None, v_help = None\<rparr>"]
    main_exit_status[of "\<lambda>_. Inr \<lparr>v_compress = Some ''x'', v_decompress = None, v_list = None, v_help = None\<rparr>"
      recording "\<lambda>_. None" "[]" "[''-c'', ''x'']"
      "\<lparr>v_compress = Some ''x'', v_decompress = None, v_list = None, v_help = None\<rparr>" "''x''" NotFound "[]"]
    main_exit_status[of "\<lambda>_. Inr \<lparr>v_compress = None, v_decompress = Some ''x.zip'', v_list = None, v_help = None\<rparr>"
      recording "\<lambda>_. None" "[]" "[''-d'', ''x.zip'']"
      "\<lparr>v_compress = None, v_decompress = Some ''x.zip'', v_list = None, v_help = None\<rparr>" "''x.zip''" NotFound "[]"]
    main_exit_status[of "\<lambda>_. Inr \<lparr>v_compress = None, v_decompress = None, v_list = Some ''x.zip'', v_help = None\<rparr>"
      recording "\<lambda>_. None" "[]" "[''-l'', ''x.zip'']"
      "\<lparr>v_compress = None, v_decompress = None, v_list = Some ''x.zip'', v_help = None\<rparr>" "''x.zip''" NotFound "[]"]
    main_exit_status[of "\<lambda>_. Inl ParseArgsFailed" recording "\<lambda>_. None" "[]" "[''--bogus'']"
      "\<lparr>v_compress = None, v_decompress = None, v_list = None, v_help = None\<rparr>" "[]" ParseArgsFailed "[]"]
    compress_missing decompress_missing list_missing
  by (simp add: selected_def)

text \<open>
  Claim C9 as stated does not hold of every argument list that selects no operation: the
  parser is called before the \<open>try\<close> block, so for an option that it does not know the
  program shows no help text.
\<close>

theorem help_not_shown_on_rejected_arguments:
  "main rejecting recording noFiles [''--bogus''] [] =
     (\<lparr>shown = [Uncaught ParseArgsFailed], exitCode = 1\<rparr>, []) \<and>
   Log helpText \<notin> set (shown (fst (main rejecting recording noFiles [''--bogus''] [])))"
  by (simp add: main_def rejecting_def)

section \<open>Stored sizes of the members\<close>

lemma write_all_stored_sizes:
  "write_all pairs b = Inr b' \<Longrightarrow> stored_sizes b \<Longrightarrow> stored_sizes b'"
proof (induction pairs arbitrary: b)
  case Nil
  then show ?case by simp
next
  case (Cons x pairs)
  obtain p bs where x: "x = (p, bs)" by (cases x)
  from Cons.prems(1) obtain b1 where b1: "addFile p bs b = Inr b1" "write_all pairs b1 = Inr b'"
    by (auto simp: x dest: bindE_Inr)
  have "stored_sizes b1"
    using addEntry_stored_sizes[OF b1(1)[unfolded addFile_def] Cons.prems(2)] .
  then show ?case using Cons.IH[OF b1(2)] by simp
qed

text \<open>
  Claim C6. Whatever operations the writer has performed, every member it has recorded
  has a compressed size equal to its uncompressed size; so has every member that the walk
  over a directory tree adds to an empty archive, and every member that the reader finds
  in the bytes of an archive written from files.
\<close>

theorem stored_sizes_equal:
  "(run_writer ops begin_archive = Inr b \<and> m \<in> set (pending b) \<longrightarrow>
      compressedSize m = uncompressedSize m) \<and>
   (addDirectoryToZip begin_archive entries basePath = Inr b \<and> m \<in> set (pending b) \<longrightarrow>
      compressedSize m = uncompressedSize m) \<and>
   (distinct (map fst pairs) \<and> list_all (\<lambda>(p, bs). valid_name p) pairs \<and> fits pairs \<and>
    write_all pairs begin_archive = Inr b \<and> open_archive (fst (finalize b)) = Inr r \<and>
    m \<in> set (members r) \<longrightarrow>
      compressedSize m = uncompressedSize m)"
proof (intro conjI impI)
  have s0: "stored_sizes begin_archive" by (simp add: stored_sizes_def begin_archive_def)
  show "compressedSize m = uncompressedSize m"
    if "run_writer ops begin_archive = Inr b \<and> m \<in> set (pending b)"
    using that run_writer_stored_sizes[OF _ s0, of ops b] by (simp add: stored_sizes_def)
  show "compressedSize m = uncompressedSize m"
    if "addDirectoryToZip begin_archive entries basePath = Inr b \<and> m \<in> set (pending b)"
    using that write_all_stored_sizes[OF _ s0, of "tree_files entries basePath" b]
    by (simp add: stored_sizes_def walk_is_write_all)
  show "compressedSize m = uncompressedSize m"
    if h: "distinct (map fst pairs) \<and> list_all (\<lambda>(p, bs). valid_name p) pairs \<and> fits pairs \<and>
      write_all pairs begin_archive = Inr b \<and> open_archive (fst (finalize b)) = Inr r \<and>
      m \<in> set (members r)"
  proof -
    have v: "\<forall>(p, bs) \<in> set pairs. valid_name p" using h by (simp add: list_all_iff)
    have "built b pairs" using write_all_begin[OF _ v, of] h by auto
    then have "open_archive (fst (finalize b)) = Inr \<lparr>bytes = fst (finalize b), members = pending b\<rparr>"
      using open_built h by blast
    then have "members r = pending b" using h by auto
    moreover have "stored_sizes b" using write_all_stored_sizes[OF _ s0, of pairs b] h by simp
    ultimately show ?thesis using h by (simp add: stored_sizes_def)
  qed
qed

theorem stored_sizes_equal_witness:
  "run_writer [AddFile ''a'' [0x41], AddDirectory ''sub'', Finalize] begin_archive =
     Inr (projr (run_writer [AddFile ''a'' [0x41], AddDirectory ''sub'', Finalize] begin_archive)) \<and>
   \<lparr>name = ''sub/'', isDirectory = True, uncompressedSize = 0, compressedSize = 0,
     crc = crc32 [], localHeaderOffset = 30\<rparr>
     \<in> set (pending (projr (run_writer [AddFile ''a'' [0x41], AddDirectory ''sub'', Finalize] begin_archive))) \<and>
   addDirectoryToZip begin_archive [(''d'', Directory [(''a'', File [0x41])])] [] =
     Inr (projr (addDirectoryToZip begin_archive [(''d'', Directory [(''a'', File [0x41])])] [])) \<and>
   \<lparr>name = ''d/a'', isDirectory = False, uncompressedSize = 1, compressedSize = 1,
     crc = crc32 [0x41], localHeaderOffset = 0\<rparr>
     \<in> set (pending (projr (addDirectoryToZip begin_archive [(''d'', Directory [(''a'', File [0x41])])] []))) \<and>
   distinct (map fst [(''d/a'', [0x41 :: byte])]) \<and>
   list_all (\<lambda>(p, bs). valid_name p) [(''d/a'', [0x41 :: byte])] \<and>
   fits [(''d/a'', [0x41 :: byte])] \<and>
   write_all [(''d/a'', [0x41])] begin_archive = Inr (projr (write_all [(''d/a'', [0x41])] begin_archive)) \<and>
   open_archive (fst (finalize (projr (write_all [(''d/a'', [0x41])] begin_archive)))) =
     Inr \<lparr>bytes = fst (finalize (projr (write_all [(''d/a'', [0x41])] begin_archive))),
          members = [\<lparr>name = ''d/a'', isDirectory = False, uncompressedSize = 1, compressedSize = 1,
                      crc = crc32 [0x41], localHeaderOffset = 0\<rparr>]\<rparr> \<and>
   compressedSize \<lparr>name = ''sub/'', isDirectory = True, uncompressedSize = 0, compressedSize = 0,
     crc = crc32 [], localHeaderOffset = 30\<rparr> =
   uncompressedSize \<lparr>name = ''sub/'', isDirectory = True, uncompressedSize = 0, compressedSize = 0,
     crc = crc32 [], localHeaderOffset = 30\<rparr> \<and>
   compressedSize \<lparr>name = ''d/a'', isDirectory = False, uncompressedSize = 1, compressedSize = 1,
     crc = crc32 [0x41], localHeaderOffset = 0\<rparr> =
   uncompressedSize \<lparr>name = ''d/a'', isDirectory = False, uncompressedSize = 1, compressedSize = 1,
     crc = crc32 [0x41], localHeaderOffset = 0\<rparr>"
proof -
  let ?ops = "[AddFile ''a'' [0x41], AddDirectory ''sub'', Finalize]"
  let ?m = "\<lparr>name = ''sub/'', isDirectory = True, uncompressedSize = 0, compressedSize = 0,
     crc = crc32 [], localHeaderOffset = 30\<rparr>"
  let ?E = "[(''d'', Directory [(''a'', File [0x41])])]"
  let ?n = "\<lparr>name = ''d/a'', isDirectory = False, uncompressedSize = 1, compressedSize = 1,
     crc = crc32 [0x41], localHeaderOffset = 0\<rparr>"
  let ?P = "[(''d/a'', [0x41 :: byte])]"
  let ?B = "projr (write_all ?P begin_archive)"
  let ?R = "\<lparr>bytes = fst (finalize ?B), members = [?n]\<rparr>"
  have r: "run_writer ?ops begin_archive = Inr (projr (run_writer ?ops begin_archive))"
    by (simp add: addFile_def addDirectory_def addEntry_def begin_archive_def toForwardSlashes_def
        isAbsolutePath_def hasDotDotSegment_def strip_trailing_def isPosixPathSeparator_def
        finalize_def Let_def writeBytes_def)
  have m: "?m \<in> set (pending (projr (run_writer ?ops begin_archive)))"
    by (simp add: addFile_def addDirectory_def addEntry_def begin_archive_def toForwardSlashes_def
        isAbsolutePath_def hasDotDotSegment_def strip_trailing_def isPosixPathSeparator_def
        finalize_def Let_def writeBytes_def)
  have w: "addDirectoryToZip begin_archive ?E [] = Inr (projr (addDirectoryToZip begin_archive ?E []))"
    by (simp add: addFile_def addEntry_def begin_archive_def toForwardSlashes_def
        isAbsolutePath_def hasDotDotSegment_def Let_def)
  have n: "?n \<in> set (pending (projr (addDirectoryToZip begin_archive ?E [])))"
    by (simp add: addFile_def addEntry_def begin_archive_def toForwardSlashes_def
        isAbsolutePath_def hasDotDotSegment_def Let_def)
  have d: "distinct (map fst ?P)" by simp
  have v: "list_all (\<lambda>(p, bs). valid_name p) ?P"
    by (simp add: valid_name_def isAbsolutePath_def hasDotDotSegment_def)
  have v': "\<forall>(p, bs) \<in> set ?P. valid_name p" using v by simp
  have f: "fits ?P"
    by (simp add: fits_def archive_size_def local_size_def central_size_def)
  obtain b where b: "write_all ?P begin_archive = Inr b" "built b ?P"
    using write_all_begin[OF d v' f] by blast
  have wa: "write_all ?P begin_archive = Inr ?B" using b(1) by simp
  have pb: "pending ?B = [?n]"
    by (simp add: addFile_def addEntry_def begin_archive_def toForwardSlashes_def
        isAbsolutePath_def hasDotDotSegment_def Let_def)
  have o: "open_archive (fst (finalize ?B)) = Inr ?R"
    using open_built[OF b(2) f] b(1) pb by simp
  have nr: "?n \<in> set (members ?R)" by simp
  show ?thesis
    using r m w n d v f wa o
      stored_sizes_equal[of ?ops "projr (run_writer ?ops begin_archive)" ?m]
      stored_sizes_equal[of _ "projr (addDirectoryToZip begin_archive ?E [])" ?n ?E "[]"]
      stored_sizes_equal[of _ ?B ?n _ _ ?P ?R]
    by blast
qed

end
